theory Spec2Isabelle
  imports Complex_Main "HOL-Library.Multiset" "HOL-Library.Word"
begin

section \<open>Go values used by the program\<close>

text \<open>
  Go's \<open>float32\<close> and \<open>float64\<close> values. The program only compares them, multiplies a
  threshold by a constant and divides one integer count by another, so a value is either
  a real number or one of the three IEEE-754 specials. Rounding is outside this model;
  what is inside it is that a division by zero gives an infinity or a NaN (and not \<open>0\<close>,
  as division in HOL would), and that every ordered comparison with a NaN is false.
\<close>

datatype gofloat = NaN | NInf | Fin real | PInf

text \<open>The comparison operators \<open><\<close>, \<open>==\<close>, \<open><=\<close>, \<open>>\<close>, \<open>>=\<close> and \<open>!=\<close> of Go on floats.\<close>

fun flt :: "gofloat \<Rightarrow> gofloat \<Rightarrow> bool" where
  "flt NaN _ = False"
| "flt _ NaN = False"
| "flt NInf NInf = False"
| "flt NInf _ = True"
| "flt (Fin a) (Fin b) = (a < b)"
| "flt (Fin a) PInf = True"
| "flt (Fin a) NInf = False"
| "flt PInf _ = False"

fun feq :: "gofloat \<Rightarrow> gofloat \<Rightarrow> bool" where
  "feq NaN _ = False"
| "feq _ NaN = False"
| "feq x y = (x = y)"

definition fle :: "gofloat \<Rightarrow> gofloat \<Rightarrow> bool" where
  "fle x y = (flt x y \<or> feq x y)"

definition fgt :: "gofloat \<Rightarrow> gofloat \<Rightarrow> bool" where
  "fgt x y = flt y x"

definition fge :: "gofloat \<Rightarrow> gofloat \<Rightarrow> bool" where
  "fge x y = fle y x"

definition fne :: "gofloat \<Rightarrow> gofloat \<Rightarrow> bool" where
  "fne x y = (\<not> feq x y)"

text \<open>
  \<open>float32(a) / float32(b)\<close> for two Go \<open>int\<close>s: a zero divisor gives NaN for \<open>0/0\<close> and
  a signed infinity otherwise.
\<close>

definition fdiv_int :: "int \<Rightarrow> int \<Rightarrow> gofloat" where
  "fdiv_int a b =
     (if b = 0 then (if a = 0 then NaN else if 0 < a then PInf else NInf)
      else Fin (real_of_int a / real_of_int b))"

text \<open>The product of two floats (an infinity times zero is a NaN).\<close>

fun inf_times :: "bool \<Rightarrow> real \<Rightarrow> gofloat" where
  "inf_times pos a =
     (if a = 0 then NaN else if (0 < a) = pos then PInf else NInf)"

fun fmul :: "gofloat \<Rightarrow> gofloat \<Rightarrow> gofloat" where
  "fmul NaN _ = NaN"
| "fmul _ NaN = NaN"
| "fmul (Fin a) (Fin b) = Fin (a * b)"
| "fmul (Fin a) PInf = inf_times True a"
| "fmul (Fin a) NInf = inf_times False a"
| "fmul PInf (Fin b) = inf_times True b"
| "fmul NInf (Fin b) = inf_times False b"
| "fmul PInf PInf = PInf"
| "fmul NInf NInf = PInf"
| "fmul PInf NInf = NInf"
| "fmul NInf PInf = NInf"

text \<open>
  A \<open>time.Duration\<close> is a signed 64-bit count of nanoseconds. The program compares
  durations and never adds to the ones it filters on, so they are integers here.
\<close>

type_synonym Duration = int

definition Millisecond :: Duration where
  "Millisecond = 1000000"

section \<open>utils/csv.go: the measurement record and the two filters\<close>

text \<open>
  \<open>PingData\<close> and \<open>CloudflareIPData\<close>. The Go struct embeds a \<open>*PingData\<close>; the record
  extends it, so a copy of a record has its own \<open>PingData\<close> fields. The program writes
  through the pointer in one place (\<open>Colo\<close>, in \<open>TestDownloadSpeed\<close>), on an element of
  the slice before that element is copied. An address (\<open>net.IP\<close>) is a slice of bytes.
\<close>

record PingData =
  IP :: "8 word list"
  Sended :: int
  Received :: int
  Delay :: Duration
  Colo :: string

record CloudflareIPData = PingData +
  lossRate :: gofloat
  DownloadSpeed :: gofloat

type_synonym PingDelaySet = "CloudflareIPData list"
type_synonym DownloadSpeedSet = "CloudflareIPData list"

definition maxDelay :: Duration where
  "maxDelay = 9999 * Millisecond"

definition minDelay :: Duration where
  "minDelay = 0 * Millisecond"

definition maxLossRate :: gofloat where
  "maxLossRate = Fin 1"

text \<open>
  \<open>getLossRate\<close> has a pointer receiver and writes the field \<open>lossRate\<close>: it returns the
  rate together with the record as it is left behind.
\<close>

definition getLossRate :: "CloudflareIPData \<Rightarrow> gofloat \<times> CloudflareIPData" where
  "getLossRate cf =
     (if feq (lossRate cf) (Fin 0)
      then (let pingLost = Sended cf - Received cf;
                cf' = cf\<lparr>lossRate := fdiv_int pingLost (Sended cf)\<rparr>
            in (lossRate cf', cf'))
      else (lossRate cf, cf))"

text \<open>
  The loop of \<open>FilterDelay\<close> over the rest of the slice, with the records appended to
  \<open>data\<close> so far: \<open>break\<close> above the upper bound, \<open>continue\<close> below the lower one.
\<close>

fun FilterDelay_loop :: "Duration \<Rightarrow> Duration \<Rightarrow> PingDelaySet \<Rightarrow> PingDelaySet \<Rightarrow> PingDelaySet" where
  "FilterDelay_loop InputMaxDelay InputMinDelay [] data = data"
| "FilterDelay_loop InputMaxDelay InputMinDelay (v # s) data =
     (if Delay v > InputMaxDelay then data
      else if Delay v < InputMinDelay then FilterDelay_loop InputMaxDelay InputMinDelay s data
      else FilterDelay_loop InputMaxDelay InputMinDelay s (data @ [v]))"

definition FilterDelay :: "Duration \<Rightarrow> Duration \<Rightarrow> PingDelaySet \<Rightarrow> PingDelaySet" where
  "FilterDelay InputMaxDelay InputMinDelay s =
     (if InputMaxDelay > maxDelay \<or> InputMinDelay < minDelay then s
      else if InputMaxDelay = maxDelay \<and> InputMinDelay = minDelay then s
      else FilterDelay_loop InputMaxDelay InputMinDelay s [])"

text \<open>
  The loop of \<open>FilterLossRate\<close>. The loop variable \<open>v\<close> is a copy of the element, and
  \<open>getLossRate\<close> runs on that copy before it is appended: the record that is kept carries
  the rate that the call stored.
\<close>

fun FilterLossRate_loop :: "gofloat \<Rightarrow> PingDelaySet \<Rightarrow> PingDelaySet \<Rightarrow> PingDelaySet" where
  "FilterLossRate_loop InputMaxLossRate [] data = data"
| "FilterLossRate_loop InputMaxLossRate (v # s) data =
     (case getLossRate v of (rate, v') \<Rightarrow>
        if fgt rate InputMaxLossRate then data
        else FilterLossRate_loop InputMaxLossRate s (data @ [v']))"

definition FilterLossRate :: "gofloat \<Rightarrow> PingDelaySet \<Rightarrow> PingDelaySet" where
  "FilterLossRate InputMaxLossRate s =
     (if fge InputMaxLossRate maxLossRate then s
      else FilterLossRate_loop InputMaxLossRate s [])"

text \<open>
  The zero value of the record (every field of a Go composite literal that is not
  written out), and the records of the repository's tests in \<open>utils/csv_test.go\<close>.
\<close>

definition zeroIPData :: CloudflareIPData where
  "zeroIPData = \<lparr>IP = [], Sended = 0, Received = 0, Delay = 0, Colo = [],
                  lossRate = Fin 0, DownloadSpeed = Fin 0\<rparr>"

definition ip1 :: "8 word list" where "ip1 = [1, 1, 1, 1]"
definition ip2 :: "8 word list" where "ip2 = [2, 2, 2, 2]"
definition ip3 :: "8 word list" where "ip3 = [3, 3, 3, 3]"

definition delayed :: "8 word list \<Rightarrow> int \<Rightarrow> CloudflareIPData" where
  "delayed ip ms = zeroIPData\<lparr>IP := ip, Delay := ms * Millisecond\<rparr>"

definition counted :: "8 word list \<Rightarrow> int \<Rightarrow> int \<Rightarrow> CloudflareIPData" where
  "counted ip sended received = zeroIPData\<lparr>IP := ip, Sended := sended, Received := received\<rparr>"

text \<open>
  What a caller reads and what is left in the record after a call of \<open>getLossRate\<close>.
\<close>

definition lossOf :: "CloudflareIPData \<Rightarrow> gofloat" where
  "lossOf cf = fst (getLossRate cf)"

definition cached :: "CloudflareIPData \<Rightarrow> CloudflareIPData" where
  "cached cf = snd (getLossRate cf)"

text \<open>
  A sequence of later calls of \<open>getLossRate\<close> on one record, each preceded by an
  assignment of new values to \<open>Sended\<close> and \<open>Received\<close>; the rates returned, in order.
\<close>

fun later_calls :: "(int \<times> int) list \<Rightarrow> CloudflareIPData \<Rightarrow> gofloat list" where
  "later_calls [] cf = []"
| "later_calls ((sended, received) # ms) cf =
     (case getLossRate (cf\<lparr>Sended := sended, Received := received\<rparr>) of
        (rate, cf') \<Rightarrow> rate # later_calls ms cf')"

section \<open>task/tcping.go: the defaults of the prober\<close>

definition maxRoutine :: int where "maxRoutine = 1000"
definition defaultRoutines :: int where "defaultRoutines = 200"
definition defaultPort :: int where "defaultPort = 443"
definition defaultPingTimes :: int where "defaultPingTimes = 4"

text \<open>The package variables that \<open>checkPingDefault\<close> reads and writes (Go \<open>int\<close>s).\<close>

record ping_globals =
  Routines :: int
  TCPPort :: int
  PingTimes :: int

definition checkPingDefault :: "ping_globals \<Rightarrow> ping_globals" where
  "checkPingDefault g =
     (let g1 = (if Routines g \<le> 0 then g\<lparr>Routines := defaultRoutines\<rparr> else g);
          g2 = (if TCPPort g1 \<le> 0 \<or> TCPPort g1 \<ge> 65535 then g1\<lparr>TCPPort := defaultPort\<rparr> else g1);
          g3 = (if PingTimes g2 \<le> 0 then g2\<lparr>PingTimes := defaultPingTimes\<rparr> else g2)
      in g3)"

section \<open>Sorting the result sets\<close>

text \<open>
  \<open>Swap\<close> is the same for \<open>PingDelaySet\<close> and \<open>DownloadSpeedSet\<close>: \<open>s[i], s[j] = s[j], s[i]\<close>.
\<close>

definition Swap :: "'a list \<Rightarrow> nat \<Rightarrow> nat \<Rightarrow> 'a list" where
  "Swap s i j = s[i := s ! j, j := s ! i]"

text \<open>
  \<open>PingDelaySet.Less\<close> calls \<open>getLossRate\<close> on the two elements of the slice, which stores
  their rates in the slice: it returns its answer and the slice as it leaves it.
  \<open>DownloadSpeedSet.Less\<close> only reads.
\<close>

definition PingDelaySet_Less :: "PingDelaySet \<Rightarrow> nat \<Rightarrow> nat \<Rightarrow> bool \<times> PingDelaySet" where
  "PingDelaySet_Less s i j =
     (case getLossRate (s ! i) of (iRate, ci) \<Rightarrow>
        let s1 = s[i := ci] in
        case getLossRate (s1 ! j) of (jRate, cj) \<Rightarrow>
          let s2 = s1[j := cj] in
          (if fne iRate jRate then flt iRate jRate else Delay (s2 ! i) < Delay (s2 ! j), s2))"

definition DownloadSpeedSet_Less :: "DownloadSpeedSet \<Rightarrow> nat \<Rightarrow> nat \<Rightarrow> bool \<times> DownloadSpeedSet" where
  "DownloadSpeedSet_Less s i j = (fgt (DownloadSpeed (s ! i)) (DownloadSpeed (s ! j)), s)"

text \<open>
  \<open>sort.Sort\<close> belongs to Go's library, not to the repository. The library sorts a slice
  of at most 12 elements by the insertion sort written here, through the slice's \<open>Less\<close>
  and \<open>Swap\<close> with indices below its length, and a longer slice by a quicksort that
  falls back on this insertion sort for its short pieces:
  \<^verbatim>\<open>for i := a + 1; i < b; i++ {
      for j := i; j > a && data.Less(j, j-1); j-- { data.Swap(j, j-1) } }\<close>
  with \<open>a = 0\<close> and \<open>b = data.Len()\<close>.
\<close>

fun insertionSort_inner :: "('a list \<Rightarrow> nat \<Rightarrow> nat \<Rightarrow> bool \<times> 'a list) \<Rightarrow> 'a list \<Rightarrow> nat \<Rightarrow> 'a list" where
  "insertionSort_inner lessf s 0 = s"
| "insertionSort_inner lessf s (Suc j) =
     (case lessf s (Suc j) j of (b, s') \<Rightarrow>
        if b then insertionSort_inner lessf (Swap s' (Suc j) j) j else s')"

definition sort_Sort :: "('a list \<Rightarrow> nat \<Rightarrow> nat \<Rightarrow> bool \<times> 'a list) \<Rightarrow> 'a list \<Rightarrow> 'a list" where
  "sort_Sort lessf s = foldl (insertionSort_inner lessf) s [1..<length s]"

text \<open>
  What \<open>PingDelaySet.Less\<close> compares: the loss rate that \<open>getLossRate\<close> reports and the
  delay. \<open>key_less\<close> is its comparison on such a pair.
\<close>

definition loss_delay :: "CloudflareIPData \<Rightarrow> gofloat \<times> Duration" where
  "loss_delay cf = (lossOf cf, Delay cf)"

definition key_less :: "gofloat \<times> Duration \<Rightarrow> gofloat \<times> Duration \<Rightarrow> bool" where
  "key_less a b = (if fne (fst a) (fst b) then flt (fst a) (fst b) else snd a < snd b)"

text \<open>
  What one run of the inner loop does to the keys of the sorted prefix, read from the
  right: the new key moves left past every key it is less than.
\<close>

fun key_insert :: "gofloat \<times> Duration \<Rightarrow> (gofloat \<times> Duration) list \<Rightarrow> (gofloat \<times> Duration) list" where
  "key_insert k [] = [k]"
| "key_insert k (m # ms) = (if key_less k m then m # key_insert k ms else k # m # ms)"

text \<open>The order of the delay-ordered result set, on two keys.\<close>

definition key_le :: "gofloat \<times> Duration \<Rightarrow> gofloat \<times> Duration \<Rightarrow> bool" where
  "key_le a b = (flt (fst a) (fst b) \<or> (fst a = fst b \<and> snd a \<le> snd b))"

text \<open>A record as the prober appends it: counts and a delay in milliseconds.\<close>

definition probed :: "8 word list \<Rightarrow> int \<Rightarrow> int \<Rightarrow> int \<Rightarrow> CloudflareIPData" where
  "probed ip sended received ms =
     zeroIPData\<lparr>IP := ip, Sended := sended, Received := received, Delay := ms * Millisecond\<rparr>"

section \<open>Package task: the throughput phase\<close>

definition Second :: Duration where
  "Second = 1000 * Millisecond"

definition defaultURL :: string where "defaultURL = ''https://cf.xiu2.xyz/url''"
definition defaultTimeout :: Duration where "defaultTimeout = 10 * Second"
definition defaultDisableDownload :: bool where "defaultDisableDownload = False"
definition defaultTestNum :: int where "defaultTestNum = 10"
definition defaultMinSpeed :: gofloat where "defaultMinSpeed = Fin 0"

text \<open>
  The package variables of the throughput phase, and \<open>utils.Debug\<close>, which
  \<open>TestDownloadSpeed\<close> reads.
\<close>

record download_globals =
  URL :: string
  Timeout :: Duration
  Disable :: bool
  TestCount :: int
  MinSpeed :: gofloat
  Debug :: bool

definition checkDownloadDefault :: "download_globals \<Rightarrow> download_globals" where
  "checkDownloadDefault g =
     (let g1 = (if URL g = [] then g\<lparr>URL := defaultURL\<rparr> else g);
          g2 = (if Timeout g1 \<le> 0 then g1\<lparr>Timeout := defaultTimeout\<rparr> else g1);
          g3 = (if TestCount g2 \<le> 0 then g2\<lparr>TestCount := defaultTestNum\<rparr> else g2);
          g4 = (if fle (MinSpeed g3) (Fin 0) then g3\<lparr>MinSpeed := defaultMinSpeed\<rparr> else g3)
      in g4)"

text \<open>
  \<open>downloadHandler\<close> downloads from one address over the network and returns a speed
  and a location tag. Here it is a parameter: what the \<open>k\<close>-th download, from the given
  address, returned. The three statements that store its result in \<open>ipSet[i]\<close>:
\<close>

definition attach :: "gofloat \<times> string \<Rightarrow> CloudflareIPData \<Rightarrow> CloudflareIPData" where
  "attach result cf =
     (case result of (speed, colo) \<Rightarrow>
        let cf1 = cf\<lparr>DownloadSpeed := speed\<rparr>
        in if Colo cf1 = [] then cf1\<lparr>Colo := colo\<rparr> else cf1)"

text \<open>
  The loop \<open>for i := 0; i < testNum; i++\<close>, from index \<open>i\<close> on. It returns the slice
  \<open>ipSet\<close> as the loop leaves it, \<open>speedSet\<close>, and the addresses that were passed to
  \<open>downloadHandler\<close>, in order; \<open>None\<close> is the panic of an index out of range.
\<close>

function download_loop ::
  "(nat \<Rightarrow> 8 word list \<Rightarrow> gofloat \<times> string) \<Rightarrow> download_globals \<Rightarrow> int \<Rightarrow> nat
     \<Rightarrow> PingDelaySet \<Rightarrow> DownloadSpeedSet \<Rightarrow> 8 word list list
     \<Rightarrow> (PingDelaySet \<times> DownloadSpeedSet \<times> 8 word list list) option" where
  "download_loop downloadHandler g testNum i ipSet speedSet calls =
     (if int i < testNum then
        (if length ipSet \<le> i then None
         else
           let result = downloadHandler i (IP (ipSet ! i));
               ipSet' = ipSet[i := attach result (ipSet ! i)];
               calls' = calls @ [IP (ipSet ! i)]
           in if fge (fst result) (fmul (fmul (MinSpeed g) (Fin 1024)) (Fin 1024)) then
                (let speedSet' = speedSet @ [ipSet' ! i]
                 in if int (length speedSet') = TestCount g then Some (ipSet', speedSet', calls')
                    else download_loop downloadHandler g testNum (Suc i) ipSet' speedSet' calls')
              else download_loop downloadHandler g testNum (Suc i) ipSet' speedSet calls')
      else Some (ipSet, speedSet, calls))"
  by pat_completeness auto
termination
  by (relation "measure (\<lambda>(downloadHandler, g, testNum, i, ipSet, speedSet, calls). nat testNum - i)")
     auto

text \<open>
  What a call of \<open>TestDownloadSpeed\<close> leaves: the set it returns, the package variables
  (it lowers \<open>TestCount\<close>), its local \<open>testNum\<close> when it got as far as setting it, and the
  addresses it measured.
\<close>

record download_run =
  run_speedSet :: DownloadSpeedSet
  run_globals :: download_globals
  run_testNum :: "int option"
  run_measured :: "8 word list list"

definition TestDownloadSpeed ::
  "(nat \<Rightarrow> 8 word list \<Rightarrow> gofloat \<times> string) \<Rightarrow> download_globals \<Rightarrow> PingDelaySet
     \<Rightarrow> download_run option" where
  "TestDownloadSpeed downloadHandler g0 ipSet =
     (let g = checkDownloadDefault g0 in
      if Disable g then
        Some \<lparr>run_speedSet = ipSet, run_globals = g, run_testNum = None, run_measured = []\<rparr>
      else if int (length ipSet) \<le> 0 then
        Some \<lparr>run_speedSet = [], run_globals = g, run_testNum = None, run_measured = []\<rparr>
      else
        let testNum0 = TestCount g;
            testNum1 = (if int (length ipSet) < TestCount g \<or> fgt (MinSpeed g) (Fin 0)
                        then int (length ipSet) else testNum0);
            g' = (if testNum1 < TestCount g then g\<lparr>TestCount := testNum1\<rparr> else g)
        in case download_loop downloadHandler g' testNum1 0 ipSet [] [] of
             None \<Rightarrow> None
           | Some (ipSet', speedSet', calls) \<Rightarrow>
               let speedSet'' =
                     (if feq (MinSpeed g') (Fin 0) then ipSet'
                      else if Debug g' \<and> length speedSet' = 0 then ipSet'
                      else speedSet')
               in Some \<lparr>run_speedSet = sort_Sort DownloadSpeedSet_Less speedSet'',
                         run_globals = g', run_testNum = Some testNum1, run_measured = calls\<rparr>)"

text \<open>Package variables as they are at the start, and downloads that all give one speed.\<close>

definition initial_globals :: download_globals where
  "initial_globals = \<lparr>URL = defaultURL, Timeout = defaultTimeout, Disable = defaultDisableDownload,
                       TestCount = defaultTestNum, MinSpeed = defaultMinSpeed, Debug = False\<rparr>"

definition steady :: "real \<Rightarrow> nat \<Rightarrow> 8 word list \<Rightarrow> gofloat \<times> string" where
  "steady bytes_per_second k ip = (Fin bytes_per_second, [])"

text \<open>
  The slice after the loop has passed over every index from \<open>i\<close> on: each of those
  records with the result of its download attached.
\<close>

definition measured_from ::
  "(nat \<Rightarrow> 8 word list \<Rightarrow> gofloat \<times> string) \<Rightarrow> nat \<Rightarrow> PingDelaySet \<Rightarrow> PingDelaySet" where
  "measured_from downloadHandler i ipSet =
     take i ipSet
       @ map (\<lambda>(k, cf). attach (downloadHandler k (IP cf)) cf) (enumerate i (drop i ipSet))"

text \<open>The threshold that a speed is compared with: \<open>MinSpeed*1024*1024\<close>.\<close>

definition threshold :: "download_globals \<Rightarrow> gofloat" where
  "threshold g = fmul (fmul (MinSpeed g) (Fin 1024)) (Fin 1024)"

text \<open>
  The test \<open>speed >= MinSpeed*1024*1024\<close> for the candidate at index \<open>k\<close>: whether the
  speed that its download gives meets the threshold.
\<close>

definition meets ::
  "(nat \<Rightarrow> 8 word list \<Rightarrow> gofloat \<times> string) \<Rightarrow> download_globals \<Rightarrow> PingDelaySet \<Rightarrow> nat \<Rightarrow> bool" where
  "meets downloadHandler g ipSet k =
     fge (fst (downloadHandler k (IP (ipSet ! k)))) (threshold g)"

section \<open>task/ip.go: the range expander\<close>

unbundle bit_operations_syntax

text \<open>
  The ways in which the expander does not return: \<open>log.Fatalln\<close> on a specification
  that does not parse, the panic of an index out of range or of a nil pointer, and, in
  this model, a walk over a range that has not ended when the fuel has.
\<close>

datatype failure = Fatal | Panic | OutOfFuel

text \<open>\<open>net.IPNet\<close>: the network address and the mask, slices of bytes.\<close>

record IPNet =
  network :: "8 word list"
  Mask :: "8 word list"

text \<open>
  \<open>IPRanges\<close>. Its field \<open>mask\<close> is \<open>cidr_mask\<close> here; \<open>ipNet\<close> is a pointer, nil until
  \<open>parseCIDR\<close> has set it.
\<close>

record IPRanges =
  ips :: "8 word list list"
  cidr_mask :: string
  firstIP :: "8 word list"
  ipNet :: "IPNet option"

definition newIPRanges :: IPRanges where
  "newIPRanges = \<lparr>ips = [], cidr_mask = [], firstIP = [], ipNet = None\<rparr>"

text \<open>
  What the expander takes from Go's library and from the process: \<open>net.ParseCIDR\<close>
  (\<open>None\<close> is its error), \<open>(*IPNet).Contains\<close>, and \<open>rand.Intn\<close>, as the value that the
  \<open>k\<close>-th draw from the process-wide source gives for a bound. A state of the expander
  is an \<open>IPRanges\<close> together with the number of draws made so far.
\<close>

record library =
  ParseCIDR :: "string \<Rightarrow> (8 word list \<times> IPNet) option"
  Contains :: "IPNet \<Rightarrow> 8 word list \<Rightarrow> bool"
  Intn :: "nat \<Rightarrow> int \<Rightarrow> int"

text \<open>\<open>strings.Contains(ip, ".")\<close> and \<open>strings.IndexByte\<close>.\<close>

definition isIPv4 :: "string \<Rightarrow> bool" where
  "isIPv4 ip = (CHR ''.'' \<in> set ip)"

fun IndexByte :: "string \<Rightarrow> char \<Rightarrow> int" where
  "IndexByte [] c = - 1"
| "IndexByte (x # xs) c =
     (if x = c then 0 else (let i = IndexByte xs c in if i < 0 then - 1 else i + 1))"

definition randIPEndWith :: "library \<Rightarrow> nat \<Rightarrow> 8 word \<Rightarrow> 8 word \<times> nat" where
  "randIPEndWith lib k num =
     (if num = 0 then (0, k) else (word_of_int (Intn lib k (uint num)), Suc k))"

definition fixIP :: "IPRanges \<Rightarrow> string \<Rightarrow> string \<times> IPRanges" where
  "fixIP r ip =
     (let i = IndexByte ip CHR ''/'' in
      if i < 0 then
        (let r' = (if isIPv4 ip then r\<lparr>cidr_mask := ''/32''\<rparr> else r\<lparr>cidr_mask := ''/128''\<rparr>)
         in (ip @ cidr_mask r', r'))
      else (ip, r\<lparr>cidr_mask := drop (nat i) ip\<rparr>))"

definition parseCIDR :: "library \<Rightarrow> IPRanges \<Rightarrow> string \<Rightarrow> failure + IPRanges" where
  "parseCIDR lib r ip =
     (case fixIP r ip of (fixed, r') \<Rightarrow>
        case ParseCIDR lib fixed of
          None \<Rightarrow> Inl Fatal
        | Some (first, net) \<Rightarrow> Inr (r'\<lparr>firstIP := first, ipNet := Some net\<rparr>))"

text \<open>\<open>net.IPv4\<close> gives the 16-byte form of an IPv4 address.\<close>

definition IPv4 :: "8 word \<Rightarrow> 8 word \<Rightarrow> 8 word \<Rightarrow> 8 word \<Rightarrow> 8 word list" where
  "IPv4 a b c d = replicate 10 0 @ [255, 255, a, b, c, d]"

definition appendIP :: "IPRanges \<Rightarrow> 8 word list \<Rightarrow> IPRanges" where
  "appendIP r ip = r\<lparr>ips := ips r @ [ip]\<rparr>"

definition appendIPv4 :: "IPRanges \<Rightarrow> 8 word \<Rightarrow> failure + IPRanges" where
  "appendIPv4 r d =
     (if length (firstIP r) \<le> 14 then Inl Panic
      else Inr (appendIP r (IPv4 (firstIP r ! 12) (firstIP r ! 13) (firstIP r ! 14) d)))"

text \<open>
  \<open>getIPRange\<close>. The host mask is the four bytes 255 xor the mask; its hexadecimal
  string is read back by \<open>strconv.ParseInt(_, 16, 32)\<close>, which gives the largest 32-bit
  signed integer when the number does not fit (the error is dropped).
\<close>

definition getIPRange :: "IPRanges \<Rightarrow> failure + (8 word \<times> 8 word)" where
  "getIPRange r =
     (case ipNet r of
        None \<Rightarrow> Inl Panic
      | Some net \<Rightarrow>
          if length (firstIP r) \<le> 15 \<or> length (Mask net) \<noteq> 4 then Inl Panic
          else
            let minIP = (firstIP r ! 15) AND (Mask net ! 3);
                m = map2 (XOR) [255, 255, 255, 255] (Mask net);
                number = foldl (\<lambda>acc b. acc * 256 + uint b) 0 m;
                total = (if number > 2147483647 then 2147483647 else number)
            in if total > 255 then Inr (minIP, 255) else Inr (minIP, word_of_int total))"

text \<open>The three statements that step \<open>firstIP\<close> to the next 256 addresses, with carry.\<close>

definition nextBlock :: "8 word list \<Rightarrow> 8 word list" where
  "nextBlock ip =
     (let ip1 = ip[14 := ip ! 14 + 1] in
      if ip1 ! 14 = 0 then
        (let ip2 = ip1[13 := ip1 ! 13 + 1] in
         if ip2 ! 13 = 0 then ip2[12 := ip2 ! 12 + 1] else ip2)
      else ip1)"

text \<open>\<open>for i := 0; i <= int(hosts); i++ { r.appendIPv4(byte(i) + minIP) }\<close>\<close>

fun appendAll :: "IPRanges \<Rightarrow> 8 word \<Rightarrow> nat list \<Rightarrow> failure + IPRanges" where
  "appendAll r minIP [] = Inr r"
| "appendAll r minIP (i # rest) =
     (case appendIPv4 r (of_nat i + minIP) of
        Inl e \<Rightarrow> Inl e
      | Inr r' \<Rightarrow> appendAll r' minIP rest)"

text \<open>
  The loop of \<open>chooseIPv4\<close>, \<open>for r.ipNet.Contains(r.firstIP)\<close>. It has no bound of its
  own (on a range that holds every address it never ends): the first argument limits
  the number of rounds.
\<close>

fun chooseIPv4_loop ::
  "nat \<Rightarrow> library \<Rightarrow> bool \<Rightarrow> 8 word \<Rightarrow> 8 word \<Rightarrow> IPRanges \<times> nat \<Rightarrow> failure + (IPRanges \<times> nat)" where
  "chooseIPv4_loop 0 lib TestAll minIP hosts (r, k) = Inl OutOfFuel"
| "chooseIPv4_loop (Suc fuel) lib TestAll minIP hosts (r, k) =
     (case ipNet r of
        None \<Rightarrow> Inl Panic
      | Some net \<Rightarrow>
          if \<not> Contains lib net (firstIP r) then Inr (r, k)
          else
            case (if TestAll then
                    (case appendAll r minIP [0..<Suc (unat hosts)] of
                       Inl e \<Rightarrow> Inl e | Inr r' \<Rightarrow> Inr (r', k))
                  else
                    (case randIPEndWith lib k hosts of (x, k') \<Rightarrow>
                       case appendIPv4 r (minIP + x) of
                         Inl e \<Rightarrow> Inl e | Inr r' \<Rightarrow> Inr (r', k'))) of
              Inl e \<Rightarrow> Inl e
            | Inr (r', k') \<Rightarrow>
                chooseIPv4_loop fuel lib TestAll minIP hosts
                  (r'\<lparr>firstIP := nextBlock (firstIP r')\<rparr>, k'))"

definition chooseIPv4 ::
  "nat \<Rightarrow> library \<Rightarrow> bool \<Rightarrow> IPRanges \<times> nat \<Rightarrow> failure + (IPRanges \<times> nat)" where
  "chooseIPv4 fuel lib TestAll st =
     (case st of (r, k) \<Rightarrow>
        if cidr_mask r = ''/32'' then Inr (appendIP r (firstIP r), k)
        else
          case getIPRange r of
            Inl e \<Rightarrow> Inl e
          | Inr (minIP, hosts) \<Rightarrow> chooseIPv4_loop fuel lib TestAll minIP hosts (r, k))"

text \<open>
  The inner loop of \<open>chooseIPv6\<close>, \<open>for i := 13; i >= 0; i--\<close>, entered with \<open>i + 1\<close>:
  a random amount is added to byte \<open>i\<close>, and the loop goes on to the byte before it
  only when that addition wrapped around.
\<close>

fun climb :: "library \<Rightarrow> nat \<Rightarrow> 8 word list \<times> nat \<Rightarrow> 8 word list \<times> nat" where
  "climb lib 0 (ip, k) = (ip, k)"
| "climb lib (Suc i) (ip, k) =
     (let tempIP = ip ! i in
      case randIPEndWith lib k 255 of (x, k') \<Rightarrow>
        let ip' = ip[i := ip ! i + x] in
        if ip' ! i \<ge> tempIP then (ip', k') else climb lib i (ip', k'))"

fun chooseIPv6_loop ::
  "nat \<Rightarrow> library \<Rightarrow> IPRanges \<times> nat \<Rightarrow> failure + (IPRanges \<times> nat)" where
  "chooseIPv6_loop 0 lib (r, k) = Inl OutOfFuel"
| "chooseIPv6_loop (Suc fuel) lib (r, k) =
     (case ipNet r of
        None \<Rightarrow> Inl Panic
      | Some net \<Rightarrow>
          if \<not> Contains lib net (firstIP r) then Inr (r, k)
          else if length (firstIP r) \<le> 15 then Inl Panic
          else
            case randIPEndWith lib k 255 of (x15, k1) \<Rightarrow>
            case randIPEndWith lib k1 255 of (x14, k2) \<Rightarrow>
              let ip = (firstIP r)[15 := x15, 14 := x14];
                  r' = appendIP (r\<lparr>firstIP := ip\<rparr>) ip
              in case climb lib 14 (ip, k2) of (ip', k3) \<Rightarrow>
                   chooseIPv6_loop fuel lib (r'\<lparr>firstIP := ip'\<rparr>, k3))"

definition chooseIPv6 ::
  "nat \<Rightarrow> library \<Rightarrow> IPRanges \<times> nat \<Rightarrow> failure + (IPRanges \<times> nat)" where
  "chooseIPv6 fuel lib st =
     (case st of (r, k) \<Rightarrow>
        if cidr_mask r = ''/128'' then Inr (appendIP r (firstIP r), k)
        else chooseIPv6_loop fuel lib (r, k))"

text \<open>
  The body of the loops of \<open>loadIPRanges\<close> for one specification that is not empty, and
  the loop over the specifications (the pieces of \<open>IPText\<close>, or the lines of the file,
  with their white space already trimmed).
\<close>

definition expandRange ::
  "nat \<Rightarrow> library \<Rightarrow> bool \<Rightarrow> IPRanges \<times> nat \<Rightarrow> string \<Rightarrow> failure + (IPRanges \<times> nat)" where
  "expandRange fuel lib TestAll st spec =
     (case st of (r, k) \<Rightarrow>
        case parseCIDR lib r spec of
          Inl e \<Rightarrow> Inl e
        | Inr r' \<Rightarrow>
            if isIPv4 spec then chooseIPv4 fuel lib TestAll (r', k)
            else chooseIPv6 fuel lib (r', k))"

fun loadIPRanges_loop ::
  "nat \<Rightarrow> library \<Rightarrow> bool \<Rightarrow> IPRanges \<times> nat \<Rightarrow> string list \<Rightarrow> failure + (IPRanges \<times> nat)" where
  "loadIPRanges_loop fuel lib TestAll st [] = Inr st"
| "loadIPRanges_loop fuel lib TestAll st (spec # rest) =
     (if spec = [] then loadIPRanges_loop fuel lib TestAll st rest
      else case expandRange fuel lib TestAll st spec of
             Inl e \<Rightarrow> Inl e
           | Inr st' \<Rightarrow> loadIPRanges_loop fuel lib TestAll st' rest)"

definition loadIPRanges ::
  "nat \<Rightarrow> library \<Rightarrow> bool \<Rightarrow> nat \<Rightarrow> string list \<Rightarrow> failure + 8 word list list" where
  "loadIPRanges fuel lib TestAll k specs =
     (case loadIPRanges_loop fuel lib TestAll (newIPRanges, k) specs of
        Inl e \<Rightarrow> Inl e
      | Inr (ranges, k') \<Rightarrow> Inr (ips ranges))"

text \<open>
  A library for the examples. It parses \<open>1.1.1.1/32\<close>, \<open>2606:4700::/128\<close> and
  \<open>10.0.0.0/30\<close>, and the IPv6 notation \<open>::ffff:1.2.3.4\<close> with the suffixes \<open>/32\<close> and
  \<open>/128\<close>, as \<open>net.ParseCIDR\<close> answers them: the address in its 16-byte form, and a mask
  of 4 bytes for an address in IPv4 notation and of 16 bytes for one in IPv6 notation.
  A network contains the addresses that agree with it under its mask (a 4-byte mask
  applying to the last four bytes), and every draw gives 2.
\<close>

definition ip_2606_4700 :: "8 word list" where
  "ip_2606_4700 = [38, 6, 71, 0] @ replicate 12 0"

definition example_library :: library where
  "example_library =
     \<lparr>ParseCIDR = (\<lambda>s.
        if s = ''1.1.1.1/32''
        then Some (IPv4 1 1 1 1, \<lparr>network = IPv4 1 1 1 1, Mask = [255, 255, 255, 255]\<rparr>)
        else if s = ''2606:4700::/128''
        then Some (ip_2606_4700, \<lparr>network = ip_2606_4700, Mask = replicate 16 255\<rparr>)
        else if s = ''10.0.0.0/30''
        then Some (IPv4 10 0 0 0, \<lparr>network = IPv4 10 0 0 0, Mask = [255, 255, 255, 252]\<rparr>)
        else if s = ''::ffff:1.2.3.4/32''
        then Some (IPv4 1 2 3 4,
                   \<lparr>network = replicate 16 0, Mask = replicate 4 255 @ replicate 12 0\<rparr>)
        else if s = ''::ffff:1.2.3.4/128''
        then Some (IPv4 1 2 3 4, \<lparr>network = IPv4 1 2 3 4, Mask = replicate 16 255\<rparr>)
        else None),
      Contains = (\<lambda>net ip.
        length ip = 16 \<and>
        (let m = (if length (Mask net) = 4 then replicate 12 255 @ Mask net else Mask net)
         in map2 (AND) ip m = map2 (AND) (network net) m)),
      Intn = (\<lambda>k n. 2)\<rparr>"

section \<open>The location tag extractor\<close>

text \<open>
  A response header set, by header name in lower case; \<open>Get\<close> gives the empty string
  for a header that is absent.
\<close>

type_synonym Header = "string \<rightharpoonup> string"

definition Get :: "Header \<Rightarrow> string \<Rightarrow> string" where
  "Get h name = (case h name of None \<Rightarrow> [] | Some v \<Rightarrow> v)"

definition is_upper :: "char \<Rightarrow> bool" where
  "is_upper c = (65 \<le> (of_char c :: nat) \<and> (of_char c :: nat) \<le> 90)"

definition is_lower :: "char \<Rightarrow> bool" where
  "is_lower c = (97 \<le> (of_char c :: nat) \<and> (of_char c :: nat) \<le> 122)"

definition to_upper :: "char \<Rightarrow> char" where
  "to_upper c = (if is_lower c then char_of ((of_char c :: nat) - 32) else c)"

definition last_dash_segment :: "string \<Rightarrow> string" where
  "last_dash_segment v = rev (takeWhile (\<lambda>c. c \<noteq> CHR ''-'') (rev v))"

definition leading_letters :: "string \<Rightarrow> string" where
  "leading_letters v = takeWhile (\<lambda>c. is_upper c \<or> is_lower c) v"

text \<open>
  Modelled from the spec: \<open>getHeaderColo\<close>, whose source file is not among the sources
  (its tests in \<open>task/httping_test.go\<close> and its caller \<open>downloadHandler\<close> are). The spec gives the
  conventions in their order of precedence, the first match winning: the ray identifier
  header (the tag is its trailing dash-segment); the point-of-presence header (the
  leading run of letters, up to a digit); the served-by header (the last dash-segment of
  the whole value); the region-code header (a two-letter code, uppercased); and the
  server header, recognised for two vendors, each with its own pattern. The header names
  and the vendors' values are those of \<open>task/httping_test.go\<close>. No header recognised
  gives the empty string.
\<close>

definition getHeaderColo :: "Header \<Rightarrow> string" where
  "getHeaderColo header =
     (if Get header ''cf-ray'' \<noteq> [] then last_dash_segment (Get header ''cf-ray'')
      else if Get header ''x-amz-cf-pop'' \<noteq> [] then leading_letters (Get header ''x-amz-cf-pop'')
      else if Get header ''x-served-by'' \<noteq> [] then last_dash_segment (Get header ''x-served-by'')
      else if Get header ''x-id-fe'' \<noteq> []
        then map to_upper (take 2 (leading_letters (Get header ''x-id-fe'')))
      else if take 9 (Get header ''server'') = ''BunnyCDN-''
        then take 2 (takeWhile is_upper (drop 9 (Get header ''server'')))
      else if Get header ''server'' = ''CDN77-Turbo''
        then take 2 (dropWhile (\<lambda>c. \<not> is_upper c) (Get header ''x-77-pop''))
      else [])"

section \<open>task/tcping.go: the end of a probe run\<close>

text \<open>Go's division of integers rounds towards zero.\<close>

definition go_quot :: "int \<Rightarrow> int \<Rightarrow> int" where
  "go_quot a b = sgn a * sgn b * (\<bar>a\<bar> div \<bar>b\<bar>)"

text \<open>
  \<open>tcpingHandler\<close> for one address, given what \<open>checkConnection\<close> measured for it over
  the network (successes, total delay, location tag): nothing is appended when there was
  no success; otherwise \<open>appendIPData\<close> appends a record whose \<open>lossRate\<close> and
  \<open>DownloadSpeed\<close> have their zero values.
\<close>

definition tcpingHandler ::
  "ping_globals \<Rightarrow> PingDelaySet \<Rightarrow> 8 word list \<times> int \<times> Duration \<times> string \<Rightarrow> PingDelaySet" where
  "tcpingHandler g csv unit =
     (case unit of (ip, recv, totalDlay, colo) \<Rightarrow>
        if recv = 0 then csv
        else csv @ [\<lparr>IP = ip, Sended = PingTimes g, Received = recv,
                      Delay = go_quot totalDlay recv, Colo = colo,
                      lossRate = Fin 0, DownloadSpeed = Fin 0\<rparr>])"

text \<open>
  \<open>Ping.Run\<close>. The probes run concurrently and each appends under the mutex, so the
  records are collected in the order in which the probes complete: \<open>units\<close> lists the
  addresses with their measurements in that order. After the barrier the collected
  records are sorted.
\<close>

definition Ping_Run ::
  "ping_globals \<Rightarrow> (8 word list \<times> int \<times> Duration \<times> string) list \<Rightarrow> PingDelaySet" where
  "Ping_Run g units =
     (if length units = 0 then []
      else sort_Sort PingDelaySet_Less (foldl (tcpingHandler g) [] units))"

section \<open>The delay filter\<close>

lemma FilterDelay_loop_acc:
  "FilterDelay_loop mx mn s data =
     data @ filter (\<lambda>v. mn \<le> Delay v) (takeWhile (\<lambda>v. Delay v \<le> mx) s)"
  by (induction s arbitrary: data) auto

text \<open>
  C10. When the configured window reaches outside the default bounds (the maximum above
  9999 ms or the minimum below 0), \<open>FilterDelay\<close> returns its input: the same records in
  the same order, whatever their delays.
\<close>

theorem FilterDelay_outside_default_is_identity:
  "InputMaxDelay > 9999 * Millisecond \<or> InputMinDelay < 0
     \<Longrightarrow> FilterDelay InputMaxDelay InputMinDelay s = s"
  by (auto simp: FilterDelay_def maxDelay_def minDelay_def)

theorem FilterDelay_outside_default_is_identity_witness:
  "((10000 * Millisecond > 9999 * Millisecond) \<or> ((0::int) < 0))
   \<and> FilterDelay (10000 * Millisecond) 0 [delayed ip1 20000, delayed ip2 50]
       = [delayed ip1 20000, delayed ip2 50]"
  using FilterDelay_outside_default_is_identity
          [of "10000 * Millisecond" 0 "[delayed ip1 20000, delayed ip2 50]"]
  by (simp add: Millisecond_def)

text \<open>
  C3, as the source has it. For a window inside the default range that is not the whole
  default range \<open>[0, 9999 ms]\<close>, \<open>FilterDelay\<close> walks the sequence in order: it stops the
  scan at the first record whose delay exceeds the maximum, and of the records before
  that one it keeps, in order, those whose delay is at least the minimum. Nothing after
  a record above the maximum is admitted, whatever its own delay. The window
  \<open>[100 ms, 200 ms]\<close> over records at 50, 150 and 300 ms yields the 150 ms record alone.
  (With the window equal to the whole default range the input is returned as it is.)
\<close>

theorem FilterDelay_scan:
  assumes "minDelay \<le> InputMinDelay" and "InputMaxDelay \<le> maxDelay"
    and "\<not> (InputMaxDelay = maxDelay \<and> InputMinDelay = minDelay)"
  shows "FilterDelay InputMaxDelay InputMinDelay s
           = filter (\<lambda>v. InputMinDelay \<le> Delay v)
               (takeWhile (\<lambda>v. Delay v \<le> InputMaxDelay) s)
         \<and> (InputMaxDelay < Delay v \<longrightarrow>
              FilterDelay InputMaxDelay InputMinDelay (pre @ v # post)
                = FilterDelay InputMaxDelay InputMinDelay pre)
         \<and> FilterDelay (200 * Millisecond) (100 * Millisecond)
              [delayed ip1 50, delayed ip2 150, delayed ip3 300] = [delayed ip2 150]"
proof -
  have scan: "FilterDelay InputMaxDelay InputMinDelay t
                = filter (\<lambda>v. InputMinDelay \<le> Delay v)
                    (takeWhile (\<lambda>v. Delay v \<le> InputMaxDelay) t)" for t
    using assms by (auto simp: FilterDelay_def FilterDelay_loop_acc)
  have stop: "FilterDelay InputMaxDelay InputMinDelay (pre @ v # post)
                = FilterDelay InputMaxDelay InputMinDelay pre"
    if "InputMaxDelay < Delay v"
    using that by (simp add: scan takeWhile_append takeWhile_eq_all_conv [THEN iffD2])
  have example: "FilterDelay (200 * Millisecond) (100 * Millisecond)
                   [delayed ip1 50, delayed ip2 150, delayed ip3 300] = [delayed ip2 150]"
    by (simp add: FilterDelay_def maxDelay_def minDelay_def Millisecond_def
                  delayed_def zeroIPData_def)
  show ?thesis 
    apply (intro conjI impI)
      apply (rule scan)
     apply (erule stop)
    apply (rule example)
    done
qed

theorem FilterDelay_scan_witness:
  "minDelay \<le> 50 * Millisecond \<and> 200 * Millisecond \<le> maxDelay
   \<and> \<not> (200 * Millisecond = maxDelay \<and> 50 * Millisecond = minDelay)
   \<and> 200 * Millisecond < Delay (delayed ip3 300)
   \<and> FilterDelay (200 * Millisecond) (50 * Millisecond)
        ([delayed ip1 100, delayed ip2 150] @ delayed ip3 300 # [delayed ip1 120])
      = [delayed ip1 100, delayed ip2 150]"
proof -
  have a: "minDelay \<le> 50 * Millisecond" and b: "200 * Millisecond \<le> maxDelay"
    and c: "\<not> (200 * Millisecond = maxDelay \<and> 50 * Millisecond = minDelay)"
    by (simp_all add: minDelay_def maxDelay_def Millisecond_def)
  have d: "200 * Millisecond < Delay (delayed ip3 300)"
    by (simp add: delayed_def zeroIPData_def Millisecond_def)
  have e: "FilterDelay (200 * Millisecond) (50 * Millisecond) [delayed ip1 100, delayed ip2 150]
             = [delayed ip1 100, delayed ip2 150]"
    by (simp add: FilterDelay_def maxDelay_def minDelay_def Millisecond_def
                  delayed_def zeroIPData_def)
  have f: "FilterDelay (200 * Millisecond) (50 * Millisecond)
        ([delayed ip1 100, delayed ip2 150] @ delayed ip3 300 # [delayed ip1 120])
      = FilterDelay (200 * Millisecond) (50 * Millisecond) [delayed ip1 100, delayed ip2 150]"
    using FilterDelay_scan [OF a b c, of "[delayed ip1 100, delayed ip2 150]" "delayed ip3 300"
                           "[delayed ip1 100, delayed ip2 150]" "[delayed ip1 120]"] d
    by blast
  show ?thesis using a b c d e f by presburger
qed

text \<open>
  With the window equal to the whole default range, which lies inside the default range,
  no scan takes place: a record above the maximum does not stop it, and that record and
  the ones after it are returned.
\<close>

theorem FilterDelay_default_window_counterexample:
  "minDelay \<le> 0 * Millisecond \<and> 9999 * Millisecond \<le> maxDelay
   \<and> 9999 * Millisecond < Delay (delayed ip1 10000)
   \<and> FilterDelay (9999 * Millisecond) (0 * Millisecond) [delayed ip1 10000, delayed ip2 50]
       = [delayed ip1 10000, delayed ip2 50]"
  by (simp add: FilterDelay_def maxDelay_def minDelay_def Millisecond_def
                delayed_def zeroIPData_def)

section \<open>The cached loss rate\<close>

lemma feq_zero: "feq x (Fin 0) = (x = Fin 0)"
  by (cases x) auto

lemma getLossRate_fresh:
  "lossRate cf = Fin 0 \<Longrightarrow>
     getLossRate cf = (fdiv_int (Sended cf - Received cf) (Sended cf),
                       cf\<lparr>lossRate := fdiv_int (Sended cf - Received cf) (Sended cf)\<rparr>)"
  by (simp add: getLossRate_def Let_def)

lemma getLossRate_stored:
  "lossRate cf \<noteq> Fin 0 \<Longrightarrow> getLossRate cf = (lossRate cf, cf)"
  by (simp add: getLossRate_def feq_zero)

lemma later_calls_stored:
  "lossRate cf \<noteq> Fin 0 \<Longrightarrow> rate \<in> set (later_calls ms cf) \<Longrightarrow> rate = lossRate cf"
proof (induction ms arbitrary: cf)
  case Nil
  then show ?case by simp
next
  case (Cons m ms)
  obtain sended received where m: "m = (sended, received)" by (cases m)
  let ?cf = "cf\<lparr>Sended := sended, Received := received\<rparr>"
  have stored: "getLossRate ?cf = (lossRate cf, ?cf)"
    using Cons.prems(1) by (simp add: getLossRate_stored)
  from Cons.prems(2) have "rate = lossRate cf \<or> rate \<in> set (later_calls ms ?cf)"
    by (simp add: m stored)
  then show ?case
  proof
    assume "rate \<in> set (later_calls ms ?cf)"
    with Cons.IH [of ?cf] Cons.prems(1) show ?thesis by simp
  qed
qed

text \<open>
  C2, as the source has it. On a record whose \<open>lossRate\<close> field still has its zero value,
  the first call of \<open>getLossRate\<close> returns \<open>(Sended - Received) / Sended\<close>. If that rate
  is not zero it is stored, and every later call returns it, whatever is assigned to
  \<open>Sended\<close> and \<open>Received\<close> in between. If it is zero nothing is stored (zero is the
  mark of a rate not yet computed), and the next call computes the rate again from the
  fields as they are then.
\<close>

theorem getLossRate_first_and_later:
  assumes "lossRate cf = Fin 0"
  shows "fst (getLossRate cf) = fdiv_int (Sended cf - Received cf) (Sended cf)
         \<and> (fst (getLossRate cf) \<noteq> Fin 0 \<longrightarrow>
              (\<forall>rate \<in> set (later_calls ms (snd (getLossRate cf))). rate = fst (getLossRate cf)))
         \<and> (fst (getLossRate cf) = Fin 0 \<longrightarrow>
              fst (getLossRate ((snd (getLossRate cf))\<lparr>Sended := sended, Received := received\<rparr>))
                = fdiv_int (sended - received) sended)"
proof -
  let ?first = "fdiv_int (Sended cf - Received cf) (Sended cf)"
  have call: "getLossRate cf = (?first, cf\<lparr>lossRate := ?first\<rparr>)"
    using assms by (rule getLossRate_fresh)
  have later: "rate = ?first"
    if "?first \<noteq> Fin 0" and "rate \<in> set (later_calls ms (cf\<lparr>lossRate := ?first\<rparr>))" for rate
    using later_calls_stored [of "cf\<lparr>lossRate := ?first\<rparr>" rate ms] that by simp
  have again: "fst (getLossRate (cf\<lparr>lossRate := ?first, Sended := sended, Received := received\<rparr>))
                 = fdiv_int (sended - received) sended"
    if "?first = Fin 0"
    using that by (simp add: getLossRate_fresh)
  show ?thesis
    using later again by (simp add: call)
qed

theorem getLossRate_first_and_later_witness:
  "lossRate (counted ip1 4 3) = Fin 0
   \<and> fst (getLossRate (counted ip1 4 3)) = Fin (1 / 4)
   \<and> set (later_calls [(4, 1), (8, 8)] (snd (getLossRate (counted ip1 4 3)))) \<subseteq> {Fin (1 / 4)}"
proof -
  have fresh: "lossRate (counted ip1 4 3) = Fin 0"
    by (simp add: counted_def zeroIPData_def)
  have first: "fst (getLossRate (counted ip1 4 3)) = Fin (1 / 4)"
    by (simp add: getLossRate_def counted_def zeroIPData_def fdiv_int_def)
  have nonzero: "fst (getLossRate (counted ip1 4 3)) \<noteq> Fin 0"
    by (simp add: first)
  have "\<forall>rate \<in> set (later_calls [(4, 1), (8, 8)] (snd (getLossRate (counted ip1 4 3)))).
          rate = fst (getLossRate (counted ip1 4 3))"
    using getLossRate_first_and_later [OF fresh, of "[(4, 1), (8, 8)]"] nonzero by blast
  then have later: "set (later_calls [(4, 1), (8, 8)] (snd (getLossRate (counted ip1 4 3))))
                      \<subseteq> {Fin (1 / 4)}"
    unfolding first by blast
  show ?thesis
    using fresh first later by blast
qed

text \<open>
  A record with no loss: the first call returns 0, and after \<open>Received\<close> is changed
  the second call returns one half.
\<close>

theorem getLossRate_zero_recomputed_counterexample:
  "lossRate (counted ip1 4 4) = Fin 0
   \<and> fst (getLossRate (counted ip1 4 4)) = Fin 0
   \<and> fst (getLossRate ((snd (getLossRate (counted ip1 4 4)))\<lparr>Received := 2\<rparr>)) = Fin (1 / 2)"
  by (simp add: getLossRate_def counted_def zeroIPData_def fdiv_int_def)

section \<open>The loss-rate filter\<close>

lemma FilterLossRate_loop_acc:
  "FilterLossRate_loop c s data =
     data @ map cached (takeWhile (\<lambda>v. \<not> fgt (lossOf v) c) s)"
  by (induction s arbitrary: data) (auto simp: lossOf_def cached_def split: prod.splits)

lemma not_fgt_iff_fle: "x \<noteq> NaN \<Longrightarrow> c \<noteq> NaN \<Longrightarrow> (\<not> fgt x c) = fle x c"
  by (cases x; cases c) (auto simp: fgt_def fle_def)

lemma fle_refl_not_NaN: "fle x x \<Longrightarrow> x \<noteq> NaN"
  by (auto simp: fle_def)

text \<open>
  C5. Let the input be sorted by loss rate (the rates, as \<open>getLossRate\<close> reports them, do
  not decrease along the sequence, so that each of them is a number) and let the ceiling
  be a number. When the ceiling is at least 1.0, \<open>FilterLossRate\<close> returns the input as it
  is. Otherwise it keeps the records in order while their loss rate is at most the
  ceiling and stops the whole scan at the first record whose loss rate exceeds it; each
  record kept is the input record, with the rate that the call stored in it. The ceiling
  0.25 over records at loss 0, 25 and 50 per cent yields the first two.
\<close>

theorem FilterLossRate_scan:
  assumes "\<forall>i j. i \<le> j \<and> j < length s \<longrightarrow> fle (lossOf (s ! i)) (lossOf (s ! j))"
    and "InputMaxLossRate \<noteq> NaN"
  shows "(fge InputMaxLossRate (Fin 1) \<longrightarrow> FilterLossRate InputMaxLossRate s = s)
         \<and> (\<not> fge InputMaxLossRate (Fin 1) \<longrightarrow>
              FilterLossRate InputMaxLossRate s
                = map cached (takeWhile (\<lambda>v. fle (lossOf v) InputMaxLossRate) s)
              \<and> map PingData.truncate (FilterLossRate InputMaxLossRate s)
                = map PingData.truncate (takeWhile (\<lambda>v. fle (lossOf v) InputMaxLossRate) s))
         \<and> FilterLossRate (Fin (1 / 4)) [counted ip1 4 4, counted ip2 4 3, counted ip3 4 2]
             = [counted ip1 4 4, (counted ip2 4 3)\<lparr>lossRate := Fin (1 / 4)\<rparr>]"
proof -
  have noop: "FilterLossRate InputMaxLossRate s = s" if "fge InputMaxLossRate (Fin 1)"
    using that by (simp add: FilterLossRate_def maxLossRate_def)
  have numbers: "lossOf v \<noteq> NaN" if "v \<in> set s" for v
  proof -
    from that obtain i where "i < length s" and "s ! i = v"
      by (auto simp: in_set_conv_nth)
    with assms(1) have "fle (lossOf v) (lossOf v)" by blast
    then show ?thesis by (rule fle_refl_not_NaN)
  qed
  have same: "takeWhile (\<lambda>v. \<not> fgt (lossOf v) InputMaxLossRate) s
                = takeWhile (\<lambda>v. fle (lossOf v) InputMaxLossRate) s"
    by (rule takeWhile_cong) (simp_all add: not_fgt_iff_fle numbers assms(2))
  have scan: "FilterLossRate InputMaxLossRate s
                = map cached (takeWhile (\<lambda>v. fle (lossOf v) InputMaxLossRate) s)"
    if "\<not> fge InputMaxLossRate (Fin 1)"
    using that by (simp add: FilterLossRate_def maxLossRate_def FilterLossRate_loop_acc same)
  have records: "PingData.truncate (cached v) = PingData.truncate v" for v
    by (simp add: cached_def getLossRate_def Let_def PingData.truncate_def)
  have kept: "map PingData.truncate (FilterLossRate InputMaxLossRate s)
                = map PingData.truncate (takeWhile (\<lambda>v. fle (lossOf v) InputMaxLossRate) s)"
    if "\<not> fge InputMaxLossRate (Fin 1)"
    by (simp add: scan [OF that] records)
  have example: "FilterLossRate (Fin (1 / 4)) [counted ip1 4 4, counted ip2 4 3, counted ip3 4 2]
                   = [counted ip1 4 4, (counted ip2 4 3)\<lparr>lossRate := Fin (1 / 4)\<rparr>]"
    by (simp add: FilterLossRate_def maxLossRate_def getLossRate_def fdiv_int_def
                  fge_def fle_def fgt_def counted_def zeroIPData_def)
  show ?thesis
    apply (intro conjI impI)
       apply (erule noop)
      apply (erule scan)
     apply (erule kept)
    apply (rule example)
    done
qed

theorem FilterLossRate_scan_witness:
  "lossOf (counted ip1 4 4) = Fin 0 \<and> lossOf (counted ip2 4 3) = Fin (1 / 4)
   \<and> lossOf (counted ip3 4 2) = Fin (1 / 2)
   \<and> \<not> fge (Fin (1 / 4)) (Fin 1)
   \<and> FilterLossRate (Fin (1 / 4)) [counted ip1 4 4, counted ip2 4 3, counted ip3 4 2]
       = map cached (takeWhile (\<lambda>v. fle (lossOf v) (Fin (1 / 4)))
                       [counted ip1 4 4, counted ip2 4 3, counted ip3 4 2])
   \<and> map IP (FilterLossRate (Fin (1 / 4)) [counted ip1 4 4, counted ip2 4 3, counted ip3 4 2])
       = [ip1, ip2]"
proof -
  let ?s = "[counted ip1 4 4, counted ip2 4 3, counted ip3 4 2]"
  have rates: "lossOf (counted ip1 4 4) = Fin 0" "lossOf (counted ip2 4 3) = Fin (1 / 4)"
    "lossOf (counted ip3 4 2) = Fin (1 / 2)"
    by (simp_all add: lossOf_def getLossRate_def fdiv_int_def counted_def zeroIPData_def)
  have sorted: "\<forall>i j. i \<le> j \<and> j < length ?s \<longrightarrow> fle (lossOf (?s ! i)) (lossOf (?s ! j))"
  proof (intro allI impI)
    fix i j :: nat
    assume "i \<le> j \<and> j < length ?s"
    then have "j = 0 \<or> j = 1 \<or> j = 2" and "i \<le> j" by auto
    then have "(i, j) \<in> {(0, 0), (0, 1), (0, 2), (1, 1), (1, 2), (2, 2)}" by auto
    then show "fle (lossOf (?s ! i)) (lossOf (?s ! j))"
      by (auto simp: rates fle_def)
  qed
  have ceiling: "Fin (1 / 4) \<noteq> NaN" and below: "\<not> fge (Fin (1 / 4)) (Fin 1)"
    by (simp_all add: fge_def fle_def)
  have scan: "FilterLossRate (Fin (1 / 4)) ?s
                = map cached (takeWhile (\<lambda>v. fle (lossOf v) (Fin (1 / 4))) ?s)"
    using FilterLossRate_scan [OF sorted ceiling] below by blast
  have kept: "map IP (FilterLossRate (Fin (1 / 4)) ?s) = [ip1, ip2]"
    unfolding scan
    by (simp add: rates fle_def) (simp add: cached_def getLossRate_def counted_def zeroIPData_def)
  show ?thesis
    using rates below scan kept by blast
qed

section \<open>The defaults of the prober\<close>

text \<open>
  C7. \<open>checkPingDefault\<close> resets a concurrency limit that is not positive to 200, a port
  that is not positive or is at least 65535 to 443 and a probe count that is not positive
  to 4, and leaves every other value as it is: afterwards the port lies strictly between
  0 and 65535 and the probe count is positive. The concurrency limit is only made
  positive. The constant \<open>maxRoutine\<close> is declared and never compared with: a limit of
  5000, above that maximum, stays 5000.
\<close>

theorem checkPingDefault_no_upper_clamp:
  "Routines (checkPingDefault \<lparr>Routines = 5000, TCPPort = 443, PingTimes = 4\<rparr>) = 5000
   \<and> maxRoutine < Routines (checkPingDefault \<lparr>Routines = 5000, TCPPort = 443, PingTimes = 4\<rparr>)
   \<and> Routines (checkPingDefault g) = (if Routines g \<le> 0 then 200 else Routines g)
   \<and> TCPPort (checkPingDefault g) = (if TCPPort g \<le> 0 \<or> TCPPort g \<ge> 65535 then 443 else TCPPort g)
   \<and> PingTimes (checkPingDefault g) = (if PingTimes g \<le> 0 then 4 else PingTimes g)
   \<and> 0 < Routines (checkPingDefault g)
   \<and> 0 < TCPPort (checkPingDefault g) \<and> TCPPort (checkPingDefault g) < 65535
   \<and> 0 < PingTimes (checkPingDefault g)"
  by (simp add: checkPingDefault_def Let_def maxRoutine_def defaultRoutines_def
                defaultPort_def defaultPingTimes_def)

section \<open>The delay-ordered result set\<close>

subsection \<open>The float order\<close>

lemma flt_trans: "flt x y \<Longrightarrow> flt y z \<Longrightarrow> flt x z"
  by (cases x; cases y; cases z) auto

lemma flt_irrefl: "\<not> flt x x"
  by (cases x) auto

lemma flt_asym: "flt x y \<Longrightarrow> \<not> flt y x"
  by (cases x; cases y) auto

lemma flt_total: "x \<noteq> NaN \<Longrightarrow> y \<noteq> NaN \<Longrightarrow> flt x y \<or> x = y \<or> flt y x"
  by (cases x; cases y) auto

lemma feq_iff: "x \<noteq> NaN \<Longrightarrow> y \<noteq> NaN \<Longrightarrow> feq x y = (x = y)"
  by (cases x; cases y) auto

subsection \<open>The stored rate does not change what is compared\<close>

lemma getLossRate_pair: "getLossRate cf = (lossOf cf, cached cf)"
  by (simp add: lossOf_def cached_def)

lemma lossOf_cached: "lossOf (cached cf) = lossOf cf"
  by (auto simp: lossOf_def cached_def getLossRate_def Let_def feq_zero)

lemma Delay_cached: "Delay (cached cf) = Delay cf"
  by (simp add: cached_def getLossRate_def Let_def)

lemma truncate_cached: "PingData.truncate (cached cf) = PingData.truncate cf"
  by (simp add: cached_def getLossRate_def Let_def PingData.truncate_def)

lemma loss_delay_cached: "loss_delay (cached cf) = loss_delay cf"
  by (simp add: loss_delay_def lossOf_cached Delay_cached)

lemma PingDelaySet_Less_eq:
  assumes "i < length s" and "j < length s" and "i \<noteq> j"
  shows "PingDelaySet_Less s i j
           = (key_less (loss_delay (s ! i)) (loss_delay (s ! j)),
              s[i := cached (s ! i), j := cached (s ! j)])"
  using assms
  by (simp add: PingDelaySet_Less_def getLossRate_pair Let_def key_less_def loss_delay_def
                Delay_cached)

subsection \<open>The insertion sort rearranges\<close>

lemma mset_Swap: "i < length s \<Longrightarrow> j < length s \<Longrightarrow> mset (Swap s i j) = mset s"
  by (simp add: Swap_def mset_swap)

lemma length_Swap: "length (Swap s i j) = length s"
  by (simp add: Swap_def)

lemma mset_map_insertionSort_inner:
  assumes keeps: "\<And>t i j. i < length t \<Longrightarrow> j < length t \<Longrightarrow> map f (snd (lessf t i j)) = map f t"
  shows "j < length s \<Longrightarrow> mset (map f (insertionSort_inner lessf s j)) = mset (map f s)"
proof (induction j arbitrary: s)
  case 0
  then show ?case by simp
next
  case (Suc j)
  obtain b s' where call: "lessf s (Suc j) j = (b, s')" by (cases "lessf s (Suc j) j")
  have same: "map f s' = map f s"
    using keeps [of "Suc j" s j] Suc.prems call by simp
  then have len: "length s' = length s"
    by (metis length_map)
  show ?case
  proof (cases b)
    case True
    have "mset (map f (insertionSort_inner lessf (Swap s' (Suc j) j) j))
            = mset (map f (Swap s' (Suc j) j))"
      using Suc.prems len by (intro Suc.IH) (simp add: length_Swap)
    also have "\<dots> = mset (map f s')"
      using Suc.prems len by (simp add: mset_Swap)
    finally show ?thesis using True call same by simp
  next
    case False
    then show ?thesis using call same by simp
  qed
qed

lemma mset_map_foldl_inner:
  assumes keeps: "\<And>t i j. i < length t \<Longrightarrow> j < length t \<Longrightarrow> map f (snd (lessf t i j)) = map f t"
  shows "\<forall>k \<in> set ks. k < length s
           \<Longrightarrow> mset (map f (foldl (insertionSort_inner lessf) s ks)) = mset (map f s)"
proof (induction ks arbitrary: s)
  case Nil
  then show ?case by simp
next
  case (Cons k ks)
  let ?t = "insertionSort_inner lessf s k"
  have step: "mset (map f ?t) = mset (map f s)"
    using Cons.prems by (intro mset_map_insertionSort_inner [OF keeps]) simp_all
  then have "length ?t = length s"
    by (metis length_map size_mset)
  with Cons.prems have "\<forall>k \<in> set ks. k < length ?t" by simp
  from Cons.IH [OF this] step show ?case by simp
qed

lemma mset_map_sort_Sort:
  assumes keeps: "\<And>t i j. i < length t \<Longrightarrow> j < length t \<Longrightarrow> map f (snd (lessf t i j)) = map f t"
  shows "mset (map f (sort_Sort lessf s)) = mset (map f s)"
  unfolding sort_Sort_def
  by (rule mset_map_foldl_inner [OF keeps]) simp_all

subsection \<open>The inner loop inserts\<close>

lemma nth_middle2:
  "length xs = n \<Longrightarrow> (xs @ y # x # ys) ! n = y"
  "length xs = n \<Longrightarrow> (xs @ y # x # ys) ! Suc n = x"
  by (auto simp: nth_append)

lemma update_middle2:
  "length xs = n \<Longrightarrow> (xs @ y # x # ys)[Suc n := a, n := b] = xs @ b # a # ys"
  by (auto simp: list_update_append)

lemma Swap_middle2:
  "length xs = n \<Longrightarrow> Swap (xs @ y # x # ys) (Suc n) n = xs @ x # y # ys"
  by (simp add: Swap_def nth_middle2 update_middle2)

lemma insertionSort_inner_keys:
  "map loss_delay (insertionSort_inner PingDelaySet_Less (rev rys @ x # ys) (length rys))
     = rev (key_insert (loss_delay x) (map loss_delay rys)) @ map loss_delay ys"
proof (induction rys arbitrary: x ys)
  case Nil
  show ?case by simp
next
  case (Cons y rys)
  let ?n = "length rys"
  let ?s = "rev rys @ y # x # ys"
  have len: "length (rev rys) = ?n" by simp
  have call: "PingDelaySet_Less ?s (Suc ?n) ?n
                = (key_less (loss_delay x) (loss_delay y), rev rys @ cached y # cached x # ys)"
    by (simp add: PingDelaySet_Less_eq nth_middle2 [OF len] update_middle2 [OF len])
  show ?case
  proof (cases "key_less (loss_delay x) (loss_delay y)")
    case True
    have "insertionSort_inner PingDelaySet_Less ?s (Suc ?n)
            = insertionSort_inner PingDelaySet_Less (rev rys @ cached x # cached y # ys) ?n"
      using True by (simp add: call Swap_middle2 [OF len])
    then show ?thesis
      using True Cons.IH [of "cached x" "cached y # ys"] by (simp add: loss_delay_cached)
  next
    case False
    then show ?thesis by (simp add: call loss_delay_cached rev_map)
  qed
qed

subsection \<open>Inserting keeps the order\<close>

lemma key_less_iff:
  "fst a \<noteq> NaN \<Longrightarrow> fst b \<noteq> NaN \<Longrightarrow> key_less a b = (\<not> key_le b a)"
  using flt_total [of "fst a" "fst b"] flt_asym [of "fst a" "fst b"] flt_irrefl [of "fst a"]
  by (auto simp: key_less_def key_le_def fne_def feq_iff)

lemma key_le_trans: "key_le a b \<Longrightarrow> key_le b c \<Longrightarrow> key_le a c"
  by (auto simp: key_le_def dest: flt_trans)

lemma key_le_total: "fst a \<noteq> NaN \<Longrightarrow> fst b \<noteq> NaN \<Longrightarrow> key_le a b \<or> key_le b a"
  using flt_total [of "fst a" "fst b"] by (auto simp: key_le_def)

lemma set_key_insert: "set (key_insert k ms) = insert k (set ms)"
  by (induction ms) auto

lemma length_key_insert: "length (key_insert k ms) = Suc (length ms)"
  by (induction ms) auto

lemma sorted_key_insert:
  assumes "fst k \<noteq> NaN" and "\<forall>m \<in> set ms. fst m \<noteq> NaN"
    and "sorted_wrt (\<lambda>a b. key_le b a) ms"
  shows "sorted_wrt (\<lambda>a b. key_le b a) (key_insert k ms)"
  using assms
proof (induction ms)
  case Nil
  then show ?case by simp
next
  case (Cons m ms)
  show ?case
  proof (cases "key_less k m")
    case True
    then have "key_le k m"
      using Cons.prems key_less_iff [of k m] key_le_total [of k m] by auto
    then show ?thesis
      using True Cons by (auto simp: set_key_insert)
  next
    case False
    then have "key_le m k"
      using Cons.prems key_less_iff [of k m] by auto
    then show ?thesis
      using False Cons.prems by (auto intro: key_le_trans)
  qed
qed

subsection \<open>The outer loop\<close>

lemma map_update_cached:
  assumes "\<And>x. f (cached x) = f x" and "i < length s"
  shows "map f (s[i := cached (s ! i)]) = map f s"
proof -
  have "map f (s[i := cached (s ! i)]) = (map f s)[i := map f s ! i]"
    using assms by (simp add: map_update)
  then show ?thesis by simp
qed

lemma PingDelaySet_Less_keeps:
  assumes same: "\<And>x. f (cached x) = f x" and "i < length s" and "j < length s"
  shows "map f (snd (PingDelaySet_Less s i j)) = map f s"
proof -
  let ?s1 = "s[i := cached (s ! i)]"
  have "snd (PingDelaySet_Less s i j) = ?s1[j := cached (?s1 ! j)]"
    by (simp add: PingDelaySet_Less_def getLossRate_pair Let_def)
  moreover have "map f (?s1[j := cached (?s1 ! j)]) = map f ?s1"
    using assms by (intro map_update_cached) simp_all
  moreover have "map f ?s1 = map f s"
    using assms by (intro map_update_cached) simp_all
  ultimately show ?thesis by simp
qed

lemma sorted_prefix_foldl:
  assumes numbers: "\<forall>cf \<in> set s. lossOf cf \<noteq> NaN"
  shows "1 \<le> k \<Longrightarrow> k \<le> length s \<Longrightarrow>
           sorted_wrt key_le
             (take k (map loss_delay (foldl (insertionSort_inner PingDelaySet_Less) s [1..<k])))"
proof (induction k)
  case 0
  then show ?case by simp
next
  case (Suc k)
  show ?case
  proof (cases "k = 0")
    case True
    then show ?thesis by (cases s) simp_all
  next
    case False
    let ?t = "foldl (insertionSort_inner PingDelaySet_Less) s [1..<k]"
    have perm: "mset (map loss_delay ?t) = mset (map loss_delay s)"
      using Suc.prems
      by (intro mset_map_foldl_inner PingDelaySet_Less_keeps loss_delay_cached) simp_all
    then have len: "length ?t = length s"
      by (metis length_map size_mset)
    have "set (map loss_delay ?t) = set (map loss_delay s)"
      using perm by (metis set_mset_mset)
    then have keys: "\<forall>m \<in> set (map loss_delay ?t). fst m \<noteq> NaN"
      using numbers by (auto simp: loss_delay_def)
    have k: "k < length ?t" using Suc.prems len by simp
    let ?rys = "rev (take k ?t)"
    have split: "?t = rev ?rys @ ?t ! k # drop (Suc k) ?t"
      using k by (simp add: id_take_nth_drop [symmetric])
    have lr: "length ?rys = k" using k by simp
    have step: "foldl (insertionSort_inner PingDelaySet_Less) s [1..<Suc k]
                  = insertionSort_inner PingDelaySet_Less ?t k"
      using False by simp
    have "map loss_delay (insertionSort_inner PingDelaySet_Less ?t k)
            = rev (key_insert (loss_delay (?t ! k)) (map loss_delay ?rys))
                @ map loss_delay (drop (Suc k) ?t)"
      using insertionSort_inner_keys [of ?rys "?t ! k" "drop (Suc k) ?t"] split lr by simp
    then have front: "take (Suc k) (map loss_delay (insertionSort_inner PingDelaySet_Less ?t k))
                        = rev (key_insert (loss_delay (?t ! k)) (map loss_delay ?rys))"
      using lr by (simp add: length_key_insert)
    have before: "sorted_wrt (\<lambda>a b. key_le b a) (map loss_delay ?rys)"
      using Suc.IH Suc.prems False by (simp add: rev_map [symmetric] sorted_wrt_rev take_map)
    have "fst (loss_delay (?t ! k)) \<noteq> NaN"
      using keys k by (metis length_map nth_map nth_mem)
    moreover have "\<forall>m \<in> set (map loss_delay ?rys). fst m \<noteq> NaN"
      using keys by (auto dest: in_set_takeD)
    ultimately have "sorted_wrt (\<lambda>a b. key_le b a)
                       (key_insert (loss_delay (?t ! k)) (map loss_delay ?rys))"
      using before by (intro sorted_key_insert)
    then show ?thesis
      unfolding step front by (simp add: sorted_wrt_rev)
  qed
qed

lemma sort_Sort_PingDelaySet_keys:
  assumes "\<forall>cf \<in> set s. lossOf cf \<noteq> NaN"
  shows "sorted_wrt key_le (map loss_delay (sort_Sort PingDelaySet_Less s))"
proof (cases "s = []")
  case True
  then show ?thesis by (simp add: sort_Sort_def)
next
  case False
  let ?t = "sort_Sort PingDelaySet_Less s"
  have "mset (map loss_delay ?t) = mset (map loss_delay s)"
    by (intro mset_map_sort_Sort PingDelaySet_Less_keeps loss_delay_cached)
  then have "length ?t = length s"
    by (metis length_map size_mset)
  moreover have "sorted_wrt key_le (take (length s) (map loss_delay ?t))"
    unfolding sort_Sort_def using False
    by (intro sorted_prefix_foldl [OF assms]) (simp_all add: Suc_leI)
  ultimately show ?thesis by simp
qed

text \<open>
  Whatever algorithm the library runs, a slice that \<open>Less\<close> reports as sorted (no later
  element less than an earlier one) is in the order of the delay-ordered result set.
\<close>

lemma PingDelaySet_Less_sorted_is_ordered:
  assumes "\<forall>cf \<in> set t. lossOf cf \<noteq> NaN"
    and "\<forall>i j. i < j \<and> j < length t \<longrightarrow> \<not> fst (PingDelaySet_Less t j i)"
    and "i < j" and "j < length t"
  shows "flt (lossOf (t ! i)) (lossOf (t ! j))
         \<or> (lossOf (t ! i) = lossOf (t ! j) \<and> Delay (t ! i) \<le> Delay (t ! j))"
proof -
  have "\<not> fst (PingDelaySet_Less t j i)"
    using assms(2-4) by blast
  moreover have "PingDelaySet_Less t j i
                   = (key_less (loss_delay (t ! j)) (loss_delay (t ! i)),
                      t[j := cached (t ! j), i := cached (t ! i)])"
    using assms(3,4) by (intro PingDelaySet_Less_eq) simp_all
  ultimately have "\<not> key_less (loss_delay (t ! j)) (loss_delay (t ! i))"
    by simp
  moreover have "fst (loss_delay (t ! i)) \<noteq> NaN" "fst (loss_delay (t ! j)) \<noteq> NaN"
    using assms(1,3,4) by (simp_all add: loss_delay_def)
  ultimately have "key_le (loss_delay (t ! i)) (loss_delay (t ! j))"
    by (simp add: key_less_iff)
  then show ?thesis by (simp add: key_le_def loss_delay_def)
qed

subsection \<open>The records of a probe run\<close>

lemma lossOf_probe_record:
  assumes "0 < PingTimes g" and "\<forall>cf \<in> set csv. lossOf cf \<noteq> NaN"
  shows "\<forall>cf \<in> set (tcpingHandler g csv unit). lossOf cf \<noteq> NaN"
  using assms
  by (auto simp: tcpingHandler_def lossOf_def getLossRate_def fdiv_int_def Let_def
           split: prod.splits)

lemma lossOf_collected:
  assumes "0 < PingTimes g" and "\<forall>cf \<in> set csv. lossOf cf \<noteq> NaN"
  shows "\<forall>cf \<in> set (foldl (tcpingHandler g) csv units). lossOf cf \<noteq> NaN"
  using assms(2)
proof (induction units arbitrary: csv)
  case Nil
  then show ?case by simp
next
  case (Cons unit units)
  have "\<forall>cf \<in> set (tcpingHandler g csv unit). lossOf cf \<noteq> NaN"
    using assms(1) Cons.prems by (rule lossOf_probe_record)
  then show ?case using Cons.IH by simp
qed

lemma Ping_Run_sorts:
  "Ping_Run g units = sort_Sort PingDelaySet_Less (foldl (tcpingHandler g) [] units)"
  by (cases units) (simp_all add: Ping_Run_def sort_Sort_def)

lemma PingTimes_checked: "0 < PingTimes (checkPingDefault g)"
  by (simp add: checkPingDefault_def Let_def defaultPingTimes_def)

text \<open>
  C4. \<open>Ping.Run\<close> ends by sorting the records that its probes have appended, in
  whatever order they completed. Each record has \<open>Sended = PingTimes\<close>, positive after
  \<open>checkPingDefault\<close>, so its loss rate is a number. The result is delay-ordered: for
  all positions \<open>i < j\<close>, either \<open>loss(i) < loss(j)\<close>, or \<open>loss(i) = loss(j)\<close> and
  \<open>delay(i) \<le> delay(j)\<close>, the loss being what \<open>getLossRate\<close> reports. The same holds
  for the sorting of any set of records whose loss rates are numbers, and the sorted
  set holds the same measurements as the set before.
\<close>

theorem sort_PingDelaySet_ordered:
  "(\<forall>i j. i < j \<and> j < length (Ping_Run (checkPingDefault g) units) \<longrightarrow>
       flt (lossOf (Ping_Run (checkPingDefault g) units ! i))
           (lossOf (Ping_Run (checkPingDefault g) units ! j))
       \<or> (lossOf (Ping_Run (checkPingDefault g) units ! i)
             = lossOf (Ping_Run (checkPingDefault g) units ! j)
          \<and> Delay (Ping_Run (checkPingDefault g) units ! i)
              \<le> Delay (Ping_Run (checkPingDefault g) units ! j)))
   \<and> ((\<forall>cf \<in> set csv. lossOf cf \<noteq> NaN) \<longrightarrow>
        (\<forall>i j. i < j \<and> j < length (sort_Sort PingDelaySet_Less csv) \<longrightarrow>
            flt (lossOf (sort_Sort PingDelaySet_Less csv ! i))
                (lossOf (sort_Sort PingDelaySet_Less csv ! j))
            \<or> (lossOf (sort_Sort PingDelaySet_Less csv ! i)
                  = lossOf (sort_Sort PingDelaySet_Less csv ! j)
               \<and> Delay (sort_Sort PingDelaySet_Less csv ! i)
                   \<le> Delay (sort_Sort PingDelaySet_Less csv ! j)))
        \<and> mset (map PingData.truncate (sort_Sort PingDelaySet_Less csv))
            = mset (map PingData.truncate csv))"
proof -
  have ordered: "\<forall>i j. i < j \<and> j < length (sort_Sort PingDelaySet_Less t) \<longrightarrow>
            flt (lossOf (sort_Sort PingDelaySet_Less t ! i))
                (lossOf (sort_Sort PingDelaySet_Less t ! j))
            \<or> (lossOf (sort_Sort PingDelaySet_Less t ! i)
                  = lossOf (sort_Sort PingDelaySet_Less t ! j)
               \<and> Delay (sort_Sort PingDelaySet_Less t ! i)
                   \<le> Delay (sort_Sort PingDelaySet_Less t ! j))"
    if "\<forall>cf \<in> set t. lossOf cf \<noteq> NaN" for t
  proof -
    let ?t = "sort_Sort PingDelaySet_Less t"
    have "sorted_wrt key_le (map loss_delay ?t)"
      using that by (rule sort_Sort_PingDelaySet_keys)
    then have "\<forall>i j. i < j \<longrightarrow> j < length ?t \<longrightarrow>
                 key_le (loss_delay (?t ! i)) (loss_delay (?t ! j))"
      by (simp add: sorted_wrt_iff_nth_less)
    then show ?thesis
      by (simp add: key_le_def loss_delay_def)
  qed
  have perm: "mset (map PingData.truncate (sort_Sort PingDelaySet_Less csv))
                = mset (map PingData.truncate csv)"
    by (intro mset_map_sort_Sort PingDelaySet_Less_keeps truncate_cached)
  have "\<forall>cf \<in> set (foldl (tcpingHandler (checkPingDefault g)) [] units). lossOf cf \<noteq> NaN"
    using PingTimes_checked by (intro lossOf_collected) simp_all
  then have run: "\<forall>i j. i < j \<and> j < length (Ping_Run (checkPingDefault g) units) \<longrightarrow>
       flt (lossOf (Ping_Run (checkPingDefault g) units ! i))
           (lossOf (Ping_Run (checkPingDefault g) units ! j))
       \<or> (lossOf (Ping_Run (checkPingDefault g) units ! i)
             = lossOf (Ping_Run (checkPingDefault g) units ! j)
          \<and> Delay (Ping_Run (checkPingDefault g) units ! i)
              \<le> Delay (Ping_Run (checkPingDefault g) units ! j))"
    unfolding Ping_Run_sorts by (rule ordered)
  show ?thesis
    using run ordered [of csv] perm by blast
qed

theorem sort_PingDelaySet_ordered_witness:
  "map IP (Ping_Run (checkPingDefault \<lparr>Routines = 200, TCPPort = 443, PingTimes = 4\<rparr>)
             [(ip3, 2, 200 * Millisecond, []), (ip1, 4, 200 * Millisecond, []),
              ([4, 4, 4, 4], 0, 0, []), (ip2, 4, 800 * Millisecond, [])])
     = [ip1, ip2, ip3]
   \<and> (flt (lossOf (Ping_Run (checkPingDefault \<lparr>Routines = 200, TCPPort = 443, PingTimes = 4\<rparr>)
                      [(ip3, 2, 200 * Millisecond, []), (ip1, 4, 200 * Millisecond, []),
                       ([4, 4, 4, 4], 0, 0, []), (ip2, 4, 800 * Millisecond, [])] ! 0))
           (lossOf (Ping_Run (checkPingDefault \<lparr>Routines = 200, TCPPort = 443, PingTimes = 4\<rparr>)
                      [(ip3, 2, 200 * Millisecond, []), (ip1, 4, 200 * Millisecond, []),
                       ([4, 4, 4, 4], 0, 0, []), (ip2, 4, 800 * Millisecond, [])] ! 1))
        \<or> (lossOf (Ping_Run (checkPingDefault \<lparr>Routines = 200, TCPPort = 443, PingTimes = 4\<rparr>)
                      [(ip3, 2, 200 * Millisecond, []), (ip1, 4, 200 * Millisecond, []),
                       ([4, 4, 4, 4], 0, 0, []), (ip2, 4, 800 * Millisecond, [])] ! 0)
              = lossOf (Ping_Run (checkPingDefault \<lparr>Routines = 200, TCPPort = 443, PingTimes = 4\<rparr>)
                          [(ip3, 2, 200 * Millisecond, []), (ip1, 4, 200 * Millisecond, []),
                           ([4, 4, 4, 4], 0, 0, []), (ip2, 4, 800 * Millisecond, [])] ! 1)
            \<and> Delay (Ping_Run (checkPingDefault \<lparr>Routines = 200, TCPPort = 443, PingTimes = 4\<rparr>)
                        [(ip3, 2, 200 * Millisecond, []), (ip1, 4, 200 * Millisecond, []),
                         ([4, 4, 4, 4], 0, 0, []), (ip2, 4, 800 * Millisecond, [])] ! 0)
                \<le> Delay (Ping_Run (checkPingDefault \<lparr>Routines = 200, TCPPort = 443, PingTimes = 4\<rparr>)
                            [(ip3, 2, 200 * Millisecond, []), (ip1, 4, 200 * Millisecond, []),
                             ([4, 4, 4, 4], 0, 0, []), (ip2, 4, 800 * Millisecond, [])] ! 1)))"
proof -
  let ?run = "Ping_Run (checkPingDefault \<lparr>Routines = 200, TCPPort = 443, PingTimes = 4\<rparr>)
                [(ip3, 2, 200 * Millisecond, []), (ip1, 4, 200 * Millisecond, []),
                 ([4, 4, 4, 4], 0, 0, []), (ip2, 4, 800 * Millisecond, [])]"
  have order: "map IP ?run = [ip1, ip2, ip3]"
    by (simp add: Ping_Run_def checkPingDefault_def tcpingHandler_def go_quot_def
                  sort_Sort_def upt_rec PingDelaySet_Less_def getLossRate_def fdiv_int_def
                  Swap_def fne_def Millisecond_def)
  then have "length ?run = 3"
    by (metis length_map length_Cons list.size(3) numeral_3_eq_3)
  then have "(0::nat) < 1 \<and> 1 < length ?run"
    by simp
  with sort_PingDelaySet_ordered
         [of "\<lparr>Routines = 200, TCPPort = 443, PingTimes = 4\<rparr>"
             "[(ip3, 2, 200 * Millisecond, []), (ip1, 4, 200 * Millisecond, []),
               ([4, 4, 4, 4], 0, 0, []), (ip2, 4, 800 * Millisecond, [])]" "[]"]
  have "flt (lossOf (?run ! 0)) (lossOf (?run ! 1))
        \<or> (lossOf (?run ! 0) = lossOf (?run ! 1) \<and> Delay (?run ! 0) \<le> Delay (?run ! 1))"
    by blast
  then show ?thesis
    using order by blast
qed

section \<open>The throughput phase\<close>

declare download_loop.simps [simp del]

subsection \<open>The loop over the candidates\<close>

lemma IP_attach: "IP (attach result cf) = IP cf"
  by (simp add: attach_def Let_def split: prod.splits)

lemma DownloadSpeed_attach: "DownloadSpeed (attach result cf) = fst result"
  by (simp add: attach_def Let_def split: prod.splits)

lemma measured_from_step:
  assumes "i < length ipSet"
  shows "measured_from dh (Suc i) (ipSet[i := attach (dh i (IP (ipSet ! i))) (ipSet ! i)])
           = measured_from dh i ipSet"
proof -
  have "drop i ipSet = ipSet ! i # drop (Suc i) ipSet"
    using assms by (simp add: Cons_nth_drop_Suc)
  then show ?thesis
    using assms by (simp add: measured_from_def take_Suc_conv_app_nth)
qed

lemma measured_from_end: "length ipSet \<le> i \<Longrightarrow> measured_from dh i ipSet = ipSet"
  by (simp add: measured_from_def)

lemma download_loop_low:
  assumes "i < length ipSet" and "int i < n"
    and "\<not> fge (fst (dh i (IP (ipSet ! i)))) (threshold g)"
  shows "download_loop dh g n i ipSet speedSet calls
           = download_loop dh g n (Suc i) (ipSet[i := attach (dh i (IP (ipSet ! i))) (ipSet ! i)])
               speedSet (calls @ [IP (ipSet ! i)])"
  using assms by (simp add: download_loop.simps [of dh g n i] Let_def threshold_def)

lemma download_loop_high:
  assumes "i < length ipSet" and "int i < n"
    and "fge (fst (dh i (IP (ipSet ! i)))) (threshold g)"
  shows "download_loop dh g n i ipSet speedSet calls
           = (if int (Suc (length speedSet)) = TestCount g
              then Some (ipSet[i := attach (dh i (IP (ipSet ! i))) (ipSet ! i)],
                         speedSet @ [attach (dh i (IP (ipSet ! i))) (ipSet ! i)],
                         calls @ [IP (ipSet ! i)])
              else download_loop dh g n (Suc i)
                     (ipSet[i := attach (dh i (IP (ipSet ! i))) (ipSet ! i)])
                     (speedSet @ [attach (dh i (IP (ipSet ! i))) (ipSet ! i)])
                     (calls @ [IP (ipSet ! i)]))"
  using assms by (simp add: download_loop.simps [of dh g n i] Let_def threshold_def)

lemma download_loop_done:
  "\<not> int i < n \<Longrightarrow> download_loop dh g n i ipSet speedSet calls = Some (ipSet, speedSet, calls)"
  by (simp add: download_loop.simps [of dh g n i])

lemma download_loop_none_qualifies:
  assumes "n = int (length ipSet)"
    and "\<forall>k. i \<le> k \<and> k < length ipSet \<longrightarrow> \<not> fge (fst (dh k (IP (ipSet ! k)))) (threshold g)"
  shows "download_loop dh g n i ipSet speedSet calls
           = Some (measured_from dh i ipSet, speedSet, calls @ map IP (drop i ipSet))"
  using assms
proof (induction "length ipSet - i" arbitrary: i ipSet calls)
  case 0
  then show ?case
    by (simp add: download_loop_done measured_from_end)
next
  case (Suc m)
  let ?cf = "attach (dh i (IP (ipSet ! i))) (ipSet ! i)"
  let ?ipSet' = "ipSet[i := ?cf]"
  have i: "i < length ipSet" using Suc.hyps(2) by simp
  have low: "\<not> fge (fst (dh i (IP (ipSet ! i)))) (threshold g)"
    using Suc.prems(2) i by simp
  have later: "\<forall>k. Suc i \<le> k \<and> k < length ?ipSet' \<longrightarrow>
                 \<not> fge (fst (dh k (IP (?ipSet' ! k)))) (threshold g)"
    using Suc.prems(2) by simp
  have "download_loop dh g n (Suc i) ?ipSet' speedSet (calls @ [IP (ipSet ! i)])
          = Some (measured_from dh (Suc i) ?ipSet', speedSet,
                  (calls @ [IP (ipSet ! i)]) @ map IP (drop (Suc i) ?ipSet'))"
    using Suc.hyps(2) Suc.prems(1) later by (intro Suc.hyps(1)) simp_all
  moreover have "map IP (drop i ipSet) = IP (ipSet ! i) # map IP (drop (Suc i) ipSet)"
    using i by (simp add: Cons_nth_drop_Suc [symmetric])
  moreover have "download_loop dh g n i ipSet speedSet calls
          = download_loop dh g n (Suc i) ?ipSet' speedSet (calls @ [IP (ipSet ! i)])"
    using i Suc.prems(1) low by (intro download_loop_low) simp_all
  ultimately show ?case
    using i by (simp add: measured_from_step)
qed

lemma drop_last_index:
  "Suc i = length xs \<Longrightarrow> map f (drop i xs) = [f (xs ! i)]"
  by (metis Cons_nth_drop_Suc drop_all lessI list.simps(8,9) order_refl)

lemma download_loop_returns:
  assumes "n = int (length ipSet)"
  shows "\<exists>ipSet' speedSet' calls'.
           download_loop dh g n i ipSet speedSet calls = Some (ipSet', speedSet', calls')
           \<and> (calls' = calls @ map IP (drop i ipSet) \<or> int (length speedSet') = TestCount g)"
  using assms
proof (induction "length ipSet - i" arbitrary: i ipSet speedSet calls)
  case 0
  then show ?case by (simp add: download_loop_done)
next
  case (Suc m)
  let ?cf = "attach (dh i (IP (ipSet ! i))) (ipSet ! i)"
  let ?ipSet' = "ipSet[i := ?cf]"
  have i: "i < length ipSet" using Suc.hyps(2) by simp
  have n: "int i < n" using i Suc.prems by simp
  have drop: "map IP (drop i ipSet) = IP (ipSet ! i) # map IP (drop (Suc i) ?ipSet')"
    using i by (simp add: Cons_nth_drop_Suc [symmetric])
  have rest: "\<exists>ipSet' speedSet' calls'.
           download_loop dh g n (Suc i) ?ipSet' sp (calls @ [IP (ipSet ! i)])
             = Some (ipSet', speedSet', calls')
           \<and> (calls' = (calls @ [IP (ipSet ! i)]) @ map IP (drop (Suc i) ?ipSet')
                \<or> int (length speedSet') = TestCount g)" for sp
    using Suc.hyps(2) Suc.prems by (intro Suc.hyps(1)) simp_all
  show ?case
  proof (cases "fge (fst (dh i (IP (ipSet ! i)))) (threshold g)")
    case False
    then show ?thesis
      using rest [of speedSet] by (simp add: download_loop_low [OF i n] drop)
  next
    case True
    show ?thesis
    proof (cases "int (Suc (length speedSet)) = TestCount g")
      case stop: True
      then show ?thesis
        using True by (simp add: download_loop_high [OF i n])
    next
      case go: False
      then show ?thesis
        using True rest [of "speedSet @ [?cf]"] by (simp add: download_loop_high [OF i n] drop)
    qed
  qed
qed

lemma download_loop_short_input:
  assumes "n = int (length ipSet)" and "TestCount g = int (length ipSet)"
    and "length speedSet \<le> i"
  shows "\<exists>ipSet' speedSet'.
           download_loop dh g n i ipSet speedSet calls
             = Some (ipSet', speedSet', calls @ map IP (drop i ipSet))"
  using assms
proof (induction "length ipSet - i" arbitrary: i ipSet speedSet calls)
  case 0
  then show ?case by (simp add: download_loop_done)
next
  case (Suc m)
  let ?cf = "attach (dh i (IP (ipSet ! i))) (ipSet ! i)"
  let ?ipSet' = "ipSet[i := ?cf]"
  have i: "i < length ipSet" using Suc.hyps(2) by simp
  have n: "int i < n" using i Suc.prems by simp
  have drop: "map IP (drop i ipSet) = IP (ipSet ! i) # map IP (drop (Suc i) ?ipSet')"
    using i by (simp add: Cons_nth_drop_Suc [symmetric])
  have rest: "\<exists>ipSet' speedSet'.
           download_loop dh g n (Suc i) ?ipSet' sp (calls @ [IP (ipSet ! i)])
             = Some (ipSet', speedSet', (calls @ [IP (ipSet ! i)]) @ map IP (drop (Suc i) ?ipSet'))"
    if "length sp \<le> Suc i" for sp
    using Suc.hyps(2) Suc.prems(1,2) that by (intro Suc.hyps(1)) simp_all
  show ?case
  proof (cases "fge (fst (dh i (IP (ipSet ! i)))) (threshold g)")
    case False
    then show ?thesis
      using rest [of speedSet] Suc.prems(3) by (simp add: download_loop_low [OF i n] drop)
  next
    case True
    show ?thesis
    proof (cases "int (Suc (length speedSet)) = TestCount g")
      case stop: True
      then have "Suc i = length ipSet"
        using Suc.prems(2,3) i by simp
      then have "map IP (drop i ipSet) = [IP (ipSet ! i)]"
        by (rule drop_last_index)
      then show ?thesis
        using True stop by (simp add: download_loop_high [OF i n])
    next
      case go: False
      then show ?thesis
        using True rest [of "speedSet @ [?cf]"] Suc.prems(3)
        by (simp add: download_loop_high [OF i n] drop)
    qed
  qed
qed

subsection \<open>The whole call\<close>

lemma fgt_zero: "fgt m (Fin 0) \<Longrightarrow> \<not> fle m (Fin 0) \<and> \<not> feq m (Fin 0)"
  by (cases m) (auto simp: fgt_def fle_def)

lemma feq_zero_not_fgt: "feq m (Fin 0) \<Longrightarrow> \<not> fgt m (Fin 0)"
  by (cases m) (auto simp: fgt_def)

lemma checkDownloadDefault_fields:
  "Disable (checkDownloadDefault g) = Disable g"
  "Debug (checkDownloadDefault g) = Debug g"
  "0 < TestCount (checkDownloadDefault g)"
  "MinSpeed (checkDownloadDefault g) = (if fle (MinSpeed g) (Fin 0) then Fin 0 else MinSpeed g)"
  by (simp_all add: checkDownloadDefault_def Let_def defaultTestNum_def defaultMinSpeed_def)

lemma length_sort_Sort_DownloadSpeedSet:
  "length (sort_Sort DownloadSpeedSet_Less s) = length s"
proof -
  have "mset (map (\<lambda>x. x) (sort_Sort DownloadSpeedSet_Less s)) = mset (map (\<lambda>x. x) s)"
    by (rule mset_map_sort_Sort) (simp add: DownloadSpeedSet_Less_def)
  then show ?thesis by (metis list.map_ident size_mset)
qed

lemma mset_sort_Sort_DownloadSpeedSet:
  "mset (sort_Sort DownloadSpeedSet_Less s) = mset s"
proof -
  have "mset (map (\<lambda>x. x) (sort_Sort DownloadSpeedSet_Less s)) = mset (map (\<lambda>x. x) s)"
    by (rule mset_map_sort_Sort) (simp add: DownloadSpeedSet_Less_def)
  then show ?thesis by simp
qed

lemma TestDownloadSpeed_unfold:
  assumes "\<not> Disable g" and "ipSet \<noteq> []"
    and "int (length ipSet) < TestCount (checkDownloadDefault g)
         \<or> fgt (MinSpeed (checkDownloadDefault g)) (Fin 0)"
    and "g' = (if int (length ipSet) < TestCount (checkDownloadDefault g)
               then (checkDownloadDefault g)\<lparr>TestCount := int (length ipSet)\<rparr>
               else checkDownloadDefault g)"
    and "download_loop dh g' (int (length ipSet)) 0 ipSet [] [] = Some (ipSet', speedSet', calls)"
  shows "TestDownloadSpeed dh g ipSet
           = Some \<lparr>run_speedSet = sort_Sort DownloadSpeedSet_Less
                                    (if feq (MinSpeed g') (Fin 0) then ipSet'
                                     else if Debug g' \<and> length speedSet' = 0 then ipSet'
                                     else speedSet'),
                   run_globals = g', run_testNum = Some (int (length ipSet)),
                   run_measured = calls\<rparr>"
proof -
  let ?c = "checkDownloadDefault g"
  have "\<not> Disable ?c" and "\<not> int (length ipSet) \<le> 0"
    using assms(1,2) by (simp_all add: checkDownloadDefault_fields)
  then show ?thesis
    using assms(3-5) by (simp add: TestDownloadSpeed_def Let_def)
qed

lemma meets_update:
  "meets dh g (ipSet[i := attach result (ipSet ! i)]) = meets dh g ipSet"
proof
  fix k
  show "meets dh g (ipSet[i := attach result (ipSet ! i)]) k = meets dh g ipSet k"
  proof (cases "k = i \<and> i < length ipSet")
    case True
    then show ?thesis by (simp add: meets_def IP_attach)
  next
    case False
    then show ?thesis by (cases "k = i") (simp_all add: meets_def list_update_beyond)
  qed
qed

lemma upt_from: "[i..<Suc (i + j)] = i # [Suc i..<Suc (i + j)]"
  by (simp add: upt_conv_Cons)

lemma download_loop_stops:
  assumes "n = int (length ipSet)" and "int (length speedSet) < TestCount g"
  shows "\<exists>ipSet' speedSet' m.
           download_loop dh g n i ipSet speedSet calls
             = Some (ipSet', speedSet', calls @ map IP (take m (drop i ipSet)))
           \<and> m \<le> length ipSet - i
           \<and> (\<forall>j. j < m \<longrightarrow>
                 int (length speedSet + length (filter (meets dh g ipSet) [i..<i + j])) < TestCount g)
           \<and> (m < length ipSet - i \<longrightarrow>
                 int (length speedSet + length (filter (meets dh g ipSet) [i..<i + m])) = TestCount g)
           \<and> length speedSet' = length speedSet + length (filter (meets dh g ipSet) [i..<i + m])"
  using assms
proof (induction "length ipSet - i" arbitrary: i ipSet speedSet calls)
  case 0
  have a: "download_loop dh g n i ipSet speedSet calls
          = Some (ipSet, speedSet, calls @ map IP (take 0 (drop i ipSet)))"
    using 0 by (simp add: download_loop_done)
  have b: "(0::nat) \<le> length ipSet - i" by simp
  have c: "\<forall>j. j < (0::nat) \<longrightarrow>
             int (length speedSet + length (filter (meets dh g ipSet) [i..<i + j])) < TestCount g"
    by simp
  have d: "0 < length ipSet - i \<longrightarrow>
             int (length speedSet + length (filter (meets dh g ipSet) [i..<i + 0])) = TestCount g"
    using 0 by simp
  have e: "length speedSet = length speedSet + length (filter (meets dh g ipSet) [i..<i + 0])"
    by simp
  show ?case
    apply (rule exI [of _ "ipSet"], rule exI [of _ "speedSet"], rule exI [of _ "0::nat"])
    apply (insert a b c d e)
    apply (intro conjI)
        apply assumption+
    done
next
  case (Suc d)
  let ?cf = "attach (dh i (IP (ipSet ! i))) (ipSet ! i)"
  let ?ipSet' = "ipSet[i := ?cf]"
  have i: "i < length ipSet" using Suc.hyps(2) by simp
  have n: "int i < n" using i Suc.prems by simp
  have same: "meets dh g ?ipSet' = meets dh g ipSet"
    by (rule meets_update)
  have first: "drop i ipSet = ipSet ! i # drop (Suc i) ?ipSet'"
    using i by (simp add: Cons_nth_drop_Suc [symmetric])
  have rest: "\<exists>ipSet'' speedSet' m.
           download_loop dh g n (Suc i) ?ipSet' sp (calls @ [IP (ipSet ! i)])
             = Some (ipSet'', speedSet', (calls @ [IP (ipSet ! i)]) @ map IP (take m (drop (Suc i) ?ipSet')))
           \<and> m \<le> length ?ipSet' - Suc i
           \<and> (\<forall>j. j < m \<longrightarrow>
                 int (length sp + length (filter (meets dh g ?ipSet') [Suc i..<Suc i + j])) < TestCount g)
           \<and> (m < length ?ipSet' - Suc i \<longrightarrow>
                 int (length sp + length (filter (meets dh g ?ipSet') [Suc i..<Suc i + m])) = TestCount g)
           \<and> length speedSet' = length sp + length (filter (meets dh g ?ipSet') [Suc i..<Suc i + m])"
    if "int (length sp) < TestCount g" for sp
    using Suc.hyps(2) Suc.prems(1) that by (intro Suc.hyps(1)) simp_all
  show ?case
  proof (cases "meets dh g ipSet i")
    case False
    then have low: "\<not> fge (fst (dh i (IP (ipSet ! i)))) (threshold g)"
      by (simp add: meets_def)
    from rest [OF Suc.prems(2)] obtain ipSet'' speedSet' m where
      r1: "download_loop dh g n (Suc i) ?ipSet' speedSet (calls @ [IP (ipSet ! i)])
             = Some (ipSet'', speedSet', (calls @ [IP (ipSet ! i)]) @ map IP (take m (drop (Suc i) ?ipSet')))"
      and r2: "m \<le> length ?ipSet' - Suc i"
      and r3: "\<forall>j. j < m \<longrightarrow>
                 int (length speedSet + length (filter (meets dh g ?ipSet') [Suc i..<Suc i + j])) < TestCount g"
      and r4: "m < length ?ipSet' - Suc i \<longrightarrow>
                 int (length speedSet + length (filter (meets dh g ?ipSet') [Suc i..<Suc i + m])) = TestCount g"
      and r5: "length speedSet' = length speedSet + length (filter (meets dh g ?ipSet') [Suc i..<Suc i + m])"
      by blast
    have a: "download_loop dh g n i ipSet speedSet calls
               = Some (ipSet'', speedSet', calls @ map IP (take (Suc m) (drop i ipSet)))"
      using r1 low by (simp add: download_loop_low [OF i n] first)
    have b: "Suc m \<le> length ipSet - i" using r2 i by simp
    have c: "\<forall>j. j < Suc m \<longrightarrow>
               int (length speedSet + length (filter (meets dh g ipSet) [i..<i + j])) < TestCount g"
    proof (intro allI impI)
      fix j assume j: "j < Suc m"
      show "int (length speedSet + length (filter (meets dh g ipSet) [i..<i + j])) < TestCount g"
      proof (cases j)
        case 0
        then show ?thesis using Suc.prems(2) by simp
      next
        case (Suc j')
        then have "j' < m" using j by simp
        then show ?thesis using r3 False by (simp add: Suc upt_from same del: upt_Suc)
      qed
    qed
    have d: "Suc m < length ipSet - i \<longrightarrow>
               int (length speedSet + length (filter (meets dh g ipSet) [i..<i + Suc m])) = TestCount g"
      using r4 False by (simp add: upt_from same del: upt_Suc)
    have e: "length speedSet' = length speedSet + length (filter (meets dh g ipSet) [i..<i + Suc m])"
      using r5 False by (simp add: upt_from same del: upt_Suc)
    show ?thesis
      apply (rule exI [of _ "ipSet''"], rule exI [of _ "speedSet'"], rule exI [of _ "Suc m"])
    apply (insert a b c d e)
    apply (intro conjI)
        apply assumption+
    done
  next
    case True
    then have high: "fge (fst (dh i (IP (ipSet ! i)))) (threshold g)"
      by (simp add: meets_def)
    show ?thesis
    proof (cases "int (Suc (length speedSet)) = TestCount g")
      case stop: True
      have a: "download_loop dh g n i ipSet speedSet calls
                 = Some (?ipSet', speedSet @ [?cf], calls @ map IP (take (Suc 0) (drop i ipSet)))"
        using stop high by (simp add: download_loop_high [OF i n] first)
      have b: "Suc 0 \<le> length ipSet - i" using i by simp
      have c: "\<forall>j. j < Suc 0 \<longrightarrow>
               int (length speedSet + length (filter (meets dh g ipSet) [i..<i + j])) < TestCount g"
        using Suc.prems(2) by simp
      have d: "Suc 0 < length ipSet - i \<longrightarrow>
                 int (length speedSet + length (filter (meets dh g ipSet) [i..<i + Suc 0])) = TestCount g"
        using stop True by simp
      have e: "length (speedSet @ [?cf])
                 = length speedSet + length (filter (meets dh g ipSet) [i..<i + Suc 0])"
        using True by simp
      show ?thesis
        apply (rule exI [of _ "?ipSet'"], rule exI [of _ "speedSet @ [?cf]"], rule exI [of _ "Suc 0"])
    apply (insert a b c d e)
    apply (intro conjI)
        apply assumption+
    done
    next
      case go: False
      then have room: "int (length (speedSet @ [?cf])) < TestCount g"
        using Suc.prems(2) by simp
      from rest [OF room] obtain ipSet'' speedSet' m where
        r1: "download_loop dh g n (Suc i) ?ipSet' (speedSet @ [?cf]) (calls @ [IP (ipSet ! i)])
               = Some (ipSet'', speedSet', (calls @ [IP (ipSet ! i)]) @ map IP (take m (drop (Suc i) ?ipSet')))"
        and r2: "m \<le> length ?ipSet' - Suc i"
        and r3: "\<forall>j. j < m \<longrightarrow>
                   int (length (speedSet @ [?cf]) + length (filter (meets dh g ?ipSet') [Suc i..<Suc i + j])) < TestCount g"
        and r4: "m < length ?ipSet' - Suc i \<longrightarrow>
                   int (length (speedSet @ [?cf]) + length (filter (meets dh g ?ipSet') [Suc i..<Suc i + m])) = TestCount g"
        and r5: "length speedSet' = length (speedSet @ [?cf]) + length (filter (meets dh g ?ipSet') [Suc i..<Suc i + m])"
        by blast
      have a: "download_loop dh g n i ipSet speedSet calls
                 = Some (ipSet'', speedSet', calls @ map IP (take (Suc m) (drop i ipSet)))"
        using r1 go high by (simp add: download_loop_high [OF i n] first)
      have b: "Suc m \<le> length ipSet - i" using r2 i by simp
      have c: "\<forall>j. j < Suc m \<longrightarrow>
                 int (length speedSet + length (filter (meets dh g ipSet) [i..<i + j])) < TestCount g"
      proof (intro allI impI)
        fix j assume j: "j < Suc m"
        show "int (length speedSet + length (filter (meets dh g ipSet) [i..<i + j])) < TestCount g"
        proof (cases j)
          case 0
          then show ?thesis using Suc.prems(2) by simp
        next
          case (Suc j')
          then have "j' < m" using j by simp
          then show ?thesis using r3 True by (simp add: Suc upt_from same del: upt_Suc)
        qed
      qed
      have d: "Suc m < length ipSet - i \<longrightarrow>
                 int (length speedSet + length (filter (meets dh g ipSet) [i..<i + Suc m])) = TestCount g"
        using r4 True by (simp add: upt_from same del: upt_Suc)
      have e: "length speedSet' = length speedSet + length (filter (meets dh g ipSet) [i..<i + Suc m])"
        using r5 True by (simp add: upt_from same del: upt_Suc)
      show ?thesis
        apply (rule exI [of _ "ipSet''"], rule exI [of _ "speedSet'"], rule exI [of _ "Suc m"])
    apply (insert a b c d e)
    apply (intro conjI)
        apply assumption+
    done
    qed
  qed
qed

lemma meets_MinSpeed: "MinSpeed g = MinSpeed g' \<Longrightarrow> meets dh g = meets dh g'"
  by (intro ext) (simp add: meets_def threshold_def)

text \<open>
  C6, as the source has it. With measuring enabled and a non-empty input, when the input
  is shorter than \<open>TestCount\<close> or a positive minimum speed is configured (both as
  \<open>checkDownloadDefault\<close> leaves them), \<open>testNum\<close> equals the input length: the loop may
  reach every candidate and not only the first \<open>TestCount\<close>. \<open>TestCount\<close> becomes the
  smaller of itself and the input length. The candidates are measured in order, and the
  loop stops as soon as \<open>TestCount\<close> of them have met the threshold: a candidate is
  measured only while fewer than \<open>TestCount\<close> of the candidates before it have met it,
  and when the loop ends before the end of the input, exactly \<open>TestCount\<close> of the
  measured candidates have. So every candidate is measured when the input is shorter than
  \<open>TestCount\<close>, and otherwise either every candidate was measured or the result holds
  \<open>TestCount\<close> of them. Three candidates with \<open>TestCount = 5\<close> and no minimum speed give
  \<open>testNum = 3\<close>.
\<close>

theorem TestDownloadSpeed_queue:
  assumes "\<not> Disable g" and "ipSet \<noteq> []"
    and "int (length ipSet) < TestCount (checkDownloadDefault g)
         \<or> fgt (MinSpeed (checkDownloadDefault g)) (Fin 0)"
  shows "(\<exists>r. TestDownloadSpeed dh g ipSet = Some r
            \<and> run_testNum r = Some (int (length ipSet))
            \<and> (int (length ipSet) < TestCount (checkDownloadDefault g)
                  \<longrightarrow> run_measured r = map IP ipSet)
            \<and> (run_measured r = map IP ipSet
                \<or> int (length (run_speedSet r)) = TestCount (run_globals r))
            \<and> TestCount (run_globals r)
                = min (TestCount (checkDownloadDefault g)) (int (length ipSet))
            \<and> run_measured r = map IP (take (length (run_measured r)) ipSet)
            \<and> (\<forall>j. j < length (run_measured r) \<longrightarrow>
                  int (length (filter (meets dh (checkDownloadDefault g) ipSet) [0..<j]))
                    < TestCount (run_globals r))
            \<and> (length (run_measured r) < length ipSet \<longrightarrow>
                  int (length (filter (meets dh (checkDownloadDefault g) ipSet)
                                 [0..<length (run_measured r)]))
                    = TestCount (run_globals r)))
         \<and> map_option run_testNum
              (TestDownloadSpeed dh (initial_globals\<lparr>TestCount := 5\<rparr>) [a, b, c]) = Some (Some 3)"
proof -
  let ?c = "checkDownloadDefault g"
  let ?n = "int (length ipSet)"
  define g' where "g' = (if ?n < TestCount ?c then ?c\<lparr>TestCount := ?n\<rparr> else ?c)"
  have positive: "0 < TestCount g'"
    using assms(2) checkDownloadDefault_fields(3) [of g] by (simp add: g'_def)
  have count: "TestCount g' = min (TestCount ?c) ?n"
    by (simp add: g'_def)
  have "MinSpeed g' = MinSpeed ?c" by (simp add: g'_def)
  then have same: "meets dh g' = meets dh ?c" by (rule meets_MinSpeed)
  have room: "int (length ([] :: DownloadSpeedSet)) < TestCount g'"
    using positive by simp
  from download_loop_stops
         [where n = ?n and ipSet = ipSet and speedSet = "[]" and g = g' and dh = dh
            and i = 0 and calls = "[]"] room
  obtain ipSet' speedSet' m where
    loop: "download_loop dh g' ?n 0 ipSet [] [] = Some (ipSet', speedSet', map IP (take m ipSet))"
    and m: "m \<le> length ipSet"
    and before: "\<forall>j. j < m \<longrightarrow> int (length (filter (meets dh ?c ipSet) [0..<j])) < TestCount g'"
    and early: "m < length ipSet \<longrightarrow> int (length (filter (meets dh ?c ipSet) [0..<m])) = TestCount g'"
    and kept: "length speedSet' = length (filter (meets dh ?c ipSet) [0..<m])"
    by (auto simp: same)
  let ?calls = "map IP (take m ipSet)"
  have len: "length ?calls = m" using m by simp
  obtain i1 s1 c1 where
    loop1: "download_loop dh g' ?n 0 ipSet [] [] = Some (i1, s1, c1)"
    and stop: "c1 = map IP ipSet \<or> int (length s1) = TestCount g'"
    using download_loop_returns [of ?n ipSet dh g' 0 "[]" "[]"] by auto
  have stop': "?calls = map IP ipSet \<or> int (length speedSet') = TestCount g'"
    using loop loop1 stop by simp
  let ?chosen = "if feq (MinSpeed g') (Fin 0) then ipSet'
                 else if Debug g' \<and> length speedSet' = 0 then ipSet' else speedSet'"
  let ?r = "\<lparr>run_speedSet = sort_Sort DownloadSpeedSet_Less ?chosen,
             run_globals = g', run_testNum = Some ?n, run_measured = ?calls\<rparr>"
  have run: "TestDownloadSpeed dh g ipSet = Some ?r"
    using assms g'_def loop by (rule TestDownloadSpeed_unfold)
  have short: "?calls = map IP ipSet" if "?n < TestCount ?c"
  proof -
    have "TestCount g' = ?n" using that by (simp add: g'_def)
    then obtain i2 s2 where
      "download_loop dh g' ?n 0 ipSet [] [] = Some (i2, s2, [] @ map IP (drop 0 ipSet))"
      using download_loop_short_input [of ?n ipSet g' "[]" 0 dh "[]"] by auto
    with loop show ?thesis by simp
  qed
  have full: "?calls = map IP ipSet
              \<or> int (length (sort_Sort DownloadSpeedSet_Less ?chosen)) = TestCount g'"
  proof (cases "?calls = map IP ipSet")
    case True
    then show ?thesis by simp
  next
    case False
    then have l: "int (length speedSet') = TestCount g'" using stop' by simp
    have "\<not> ?n < TestCount ?c" using False short by blast
    then have "fgt (MinSpeed g') (Fin 0)" using assms(3) by (simp add: g'_def)
    then have "\<not> feq (MinSpeed g') (Fin 0)" by (simp add: fgt_zero)
    moreover have "length speedSet' \<noteq> 0" using l positive by auto
    ultimately show ?thesis
      using l by (simp add: length_sort_Sort_DownloadSpeedSet)
  qed
  have prefix: "?calls = map IP (take (length ?calls) ipSet)"
    by (simp only: len)
  have before': "\<forall>j. j < length ?calls \<longrightarrow>
                   int (length (filter (meets dh ?c ipSet) [0..<j])) < TestCount g'"
    using before by (simp only: len)
  have early': "length ?calls < length ipSet \<longrightarrow>
                  int (length (filter (meets dh ?c ipSet) [0..<length ?calls])) = TestCount g'"
    using early by (simp only: len)
  have general: "\<exists>r. TestDownloadSpeed dh g ipSet = Some r
            \<and> run_testNum r = Some ?n
            \<and> (?n < TestCount ?c \<longrightarrow> run_measured r = map IP ipSet)
            \<and> (run_measured r = map IP ipSet
                \<or> int (length (run_speedSet r)) = TestCount (run_globals r))
            \<and> TestCount (run_globals r) = min (TestCount ?c) ?n
            \<and> run_measured r = map IP (take (length (run_measured r)) ipSet)
            \<and> (\<forall>j. j < length (run_measured r) \<longrightarrow>
                  int (length (filter (meets dh ?c ipSet) [0..<j])) < TestCount (run_globals r))
            \<and> (length (run_measured r) < length ipSet \<longrightarrow>
                  int (length (filter (meets dh ?c ipSet) [0..<length (run_measured r)]))
                    = TestCount (run_globals r))"
    apply (rule exI [of _ ?r])
    apply (simp only: download_run.simps)
    apply (intro conjI impI)
           apply (rule run)
          apply (rule refl)
         apply (erule short)
        apply (rule full)
       apply (rule count)
      apply (rule prefix)
     apply (rule before')
    apply (rule early' [rule_format], assumption)
    done
  have example: "map_option run_testNum
              (TestDownloadSpeed dh (initial_globals\<lparr>TestCount := 5\<rparr>) [a, b, c]) = Some (Some 3)"
  proof -
    let ?g = "initial_globals\<lparr>TestCount := 5\<rparr>"
    let ?s = "[a, b, c]"
    have checked: "checkDownloadDefault ?g = ?g"
      by (simp add: checkDownloadDefault_def initial_globals_def defaultURL_def defaultTimeout_def
                    Second_def Millisecond_def defaultMinSpeed_def fle_def Let_def)
    have "\<exists>i2 s2 c2. download_loop dh (?g\<lparr>TestCount := 3\<rparr>) 3 0 ?s [] [] = Some (i2, s2, c2)"
      using download_loop_returns [of 3 ?s dh "?g\<lparr>TestCount := 3\<rparr>" 0 "[]" "[]"] by auto
    then obtain i2 s2 c2 where
      "download_loop dh (?g\<lparr>TestCount := 3\<rparr>) 3 0 ?s [] [] = Some (i2, s2, c2)" by blast
    then show ?thesis
      by (simp add: TestDownloadSpeed_def checked Let_def)
         (simp add: initial_globals_def defaultDisableDownload_def)
  qed
  show ?thesis using general example by (rule conjI)
qed

theorem TestDownloadSpeed_queue_witness:
  "\<not> Disable (initial_globals\<lparr>TestCount := 5\<rparr>)
   \<and> int (length [probed ip1 4 4 50, probed ip2 4 4 60, probed ip3 4 4 70])
        < TestCount (checkDownloadDefault (initial_globals\<lparr>TestCount := 5\<rparr>))
   \<and> map_option run_testNum
        (TestDownloadSpeed (steady 5000000) (initial_globals\<lparr>TestCount := 5\<rparr>)
           [probed ip1 4 4 50, probed ip2 4 4 60, probed ip3 4 4 70]) = Some (Some 3)
   \<and> map_option run_measured
        (TestDownloadSpeed (steady 5000000) (initial_globals\<lparr>TestCount := 5\<rparr>)
           [probed ip1 4 4 50, probed ip2 4 4 60, probed ip3 4 4 70]) = Some [ip1, ip2, ip3]
   \<and> fgt (MinSpeed (checkDownloadDefault (initial_globals\<lparr>TestCount := 1, MinSpeed := Fin 1\<rparr>)))
         (Fin 0)
   \<and> map_option run_measured
        (TestDownloadSpeed (steady 5000000) (initial_globals\<lparr>TestCount := 1, MinSpeed := Fin 1\<rparr>)
           [probed ip1 4 4 50, probed ip2 4 4 60, probed ip3 4 4 70]) = Some [ip1]"
proof -
  let ?g = "initial_globals\<lparr>TestCount := 5\<rparr>"
  let ?h = "initial_globals\<lparr>TestCount := 1, MinSpeed := Fin 1\<rparr>"
  let ?s = "[probed ip1 4 4 50, probed ip2 4 4 60, probed ip3 4 4 70]"
  have on: "\<not> Disable ?g" and on': "\<not> Disable ?h"
    by (simp_all add: initial_globals_def defaultDisableDownload_def)
  have some: "?s \<noteq> []" by simp
  have short: "int (length ?s) < TestCount (checkDownloadDefault ?g)"
    by (simp add: checkDownloadDefault_def initial_globals_def Let_def)
  then have cond: "int (length ?s) < TestCount (checkDownloadDefault ?g)
                   \<or> fgt (MinSpeed (checkDownloadDefault ?g)) (Fin 0)" ..
  from TestDownloadSpeed_queue [OF on some cond, where dh = "steady 5000000"] short
  obtain r where "TestDownloadSpeed (steady 5000000) ?g ?s = Some r"
    and "run_testNum r = Some (int (length ?s))" and "run_measured r = map IP ?s"
    by blast
  then have first: "map_option run_testNum (TestDownloadSpeed (steady 5000000) ?g ?s) = Some (Some 3)"
    and second: "map_option run_measured (TestDownloadSpeed (steady 5000000) ?g ?s) = Some [ip1, ip2, ip3]"
    by (simp_all add: probed_def zeroIPData_def)
  have checked: "checkDownloadDefault ?h = ?h"
    by (simp add: checkDownloadDefault_def initial_globals_def defaultURL_def defaultTimeout_def
                  Second_def Millisecond_def fle_def Let_def)
  have speed: "fgt (MinSpeed (checkDownloadDefault ?h)) (Fin 0)"
    by (simp add: checked fgt_def)
  then have cond': "int (length ?s) < TestCount (checkDownloadDefault ?h)
                    \<or> fgt (MinSpeed (checkDownloadDefault ?h)) (Fin 0)" ..
  have every: "meets (steady 5000000) (checkDownloadDefault ?h) ?s = (\<lambda>k. True)"
    by (intro ext) (simp add: checked meets_def steady_def threshold_def fge_def fle_def)
  from TestDownloadSpeed_queue [OF on' some cond', where dh = "steady 5000000"]
  obtain q where run: "TestDownloadSpeed (steady 5000000) ?h ?s = Some q"
    and wanted: "TestCount (run_globals q) = min (TestCount (checkDownloadDefault ?h)) (int (length ?s))"
    and prefix: "run_measured q = map IP (take (length (run_measured q)) ?s)"
    and before: "\<forall>j. j < length (run_measured q) \<longrightarrow>
                   int (length (filter (meets (steady 5000000) (checkDownloadDefault ?h) ?s) [0..<j]))
                     < TestCount (run_globals q)"
    and early: "length (run_measured q) < length ?s \<longrightarrow>
                  int (length (filter (meets (steady 5000000) (checkDownloadDefault ?h) ?s)
                                 [0..<length (run_measured q)]))
                    = TestCount (run_globals q)"
    by blast
  have one: "TestCount (run_globals q) = 1"
    using wanted by (simp add: checked)
  have "\<not> 1 < length (run_measured q)"
  proof
    assume "1 < length (run_measured q)"
    with before have "int (length (filter (\<lambda>k. True) [0..<(1::nat)])) < TestCount (run_globals q)"
      unfolding every by blast
    then show False using one by simp
  qed
  then have "length (run_measured q) < length ?s" by simp
  with early have "int (length (filter (\<lambda>k. True) [0..<length (run_measured q)])) = 1"
    unfolding every one by blast
  then have "length (run_measured q) = 1" by simp
  with prefix have "run_measured q = [ip1]"
    by (simp add: probed_def zeroIPData_def)
  then have third: "map_option run_measured (TestDownloadSpeed (steady 5000000) ?h ?s) = Some [ip1]"
    using run by simp
  show ?thesis
    using on short first second speed third by blast
qed

lemma evaluate_run_1:
  "TestDownloadSpeed (steady 5000000) (initial_globals\<lparr>TestCount := 1, MinSpeed := Fin 1\<rparr>)
     [probed ip1 4 4 50, probed ip2 4 4 60, probed ip3 4 4 70]
   = Some \<lparr>run_speedSet = [(probed ip1 4 4 50)\<lparr>DownloadSpeed := Fin 5000000\<rparr>],
           run_globals = initial_globals\<lparr>TestCount := 1, MinSpeed := Fin 1\<rparr>,
           run_testNum = Some 3, run_measured = [ip1]\<rparr>"
  by (simp add: TestDownloadSpeed_def checkDownloadDefault_def initial_globals_def Let_def
        defaultURL_def defaultTimeout_def Second_def Millisecond_def defaultMinSpeed_def
        defaultDisableDownload_def defaultTestNum_def fle_def fgt_def fge_def
        download_loop.simps [of _ _ _ 0] steady_def attach_def probed_def zeroIPData_def
        sort_Sort_def)

text \<open>
  A minimum speed of 1 MB/s, \<open>TestCount = 1\<close> and three candidates that all download
  at 5 MB/s: \<open>testNum\<close> is 3, and the loop ends after the first candidate; the second
  and the third are never measured.
\<close>

theorem TestDownloadSpeed_stops_early_counterexample:
  "fgt (MinSpeed (initial_globals\<lparr>TestCount := 1, MinSpeed := Fin 1\<rparr>)) (Fin 0)
   \<and> length [probed ip1 4 4 50, probed ip2 4 4 60, probed ip3 4 4 70] = 3
   \<and> map_option run_testNum
        (TestDownloadSpeed (steady 5000000) (initial_globals\<lparr>TestCount := 1, MinSpeed := Fin 1\<rparr>)
           [probed ip1 4 4 50, probed ip2 4 4 60, probed ip3 4 4 70]) = Some (Some 3)
   \<and> map_option run_measured
        (TestDownloadSpeed (steady 5000000) (initial_globals\<lparr>TestCount := 1, MinSpeed := Fin 1\<rparr>)
           [probed ip1 4 4 50, probed ip2 4 4 60, probed ip3 4 4 70]) = Some [ip1]"
  by (simp add: evaluate_run_1) (simp add: initial_globals_def fgt_def)

lemma measured_from_speeds:
  assumes "cf \<in> set (measured_from dh 0 ipSet)"
  shows "\<exists>k < length ipSet. cf = attach (dh k (IP (ipSet ! k))) (ipSet ! k)"
proof -
  from assms obtain k where "k < length ipSet"
    and "cf = attach (dh k (IP (ipSet ! k))) (ipSet ! k)"
    by (auto simp: measured_from_def in_set_enumerate_eq)
  then show ?thesis by blast
qed

text \<open>
  C1, as the source has it. With measuring enabled, a non-empty input and a positive
  minimum speed, if no candidate's measured speed meets the threshold then every
  candidate is measured, and what \<open>TestDownloadSpeed\<close> returns depends on \<open>utils.Debug\<close>:
  in debug mode it returns all the measured candidates, each with the speed measured for
  it, below the threshold; otherwise it returns an empty result.
\<close>

theorem TestDownloadSpeed_none_meets_threshold:
  assumes "\<not> Disable g" and "ipSet \<noteq> []" and "fgt (MinSpeed g) (Fin 0)"
    and "\<forall>k. k < length ipSet \<longrightarrow> \<not> fge (fst (dh k (IP (ipSet ! k)))) (threshold g)"
  shows "\<exists>r. TestDownloadSpeed dh g ipSet = Some r
           \<and> run_measured r = map IP ipSet
           \<and> (Debug g \<longrightarrow> run_speedSet r \<noteq> []
                 \<and> mset (run_speedSet r) = mset (measured_from dh 0 ipSet)
                 \<and> (\<forall>cf \<in> set (run_speedSet r). \<not> fge (DownloadSpeed cf) (threshold g)))
           \<and> (\<not> Debug g \<longrightarrow> run_speedSet r = [])"
proof -
  let ?c = "checkDownloadDefault g"
  let ?n = "int (length ipSet)"
  define g' where "g' = (if ?n < TestCount ?c then ?c\<lparr>TestCount := ?n\<rparr> else ?c)"
  have speed: "MinSpeed g' = MinSpeed g"
    using assms(3) by (simp add: g'_def checkDownloadDefault_fields fgt_zero)
  have debug: "Debug g' = Debug g"
    by (simp add: g'_def checkDownloadDefault_fields)
  have same: "threshold g' = threshold g"
    by (simp add: threshold_def speed)
  have cond: "?n < TestCount ?c \<or> fgt (MinSpeed ?c) (Fin 0)"
    using assms(3) by (simp add: checkDownloadDefault_fields fgt_zero)
  have low: "\<forall>k. 0 \<le> k \<and> k < length ipSet \<longrightarrow>
               \<not> fge (fst (dh k (IP (ipSet ! k)))) (threshold g')"
    using assms(4) by (simp add: same)
  have loop: "download_loop dh g' ?n 0 ipSet [] []
                = Some (measured_from dh 0 ipSet, [], map IP ipSet)"
    using download_loop_none_qualifies
            [where dh = dh and g = g' and i = 0 and ipSet = ipSet and n = ?n
               and speedSet = "[]" and calls = "[]"] low
    by simp
  let ?all = "measured_from dh 0 ipSet"
  let ?r = "\<lparr>run_speedSet = sort_Sort DownloadSpeedSet_Less (if Debug g then ?all else []),
             run_globals = g', run_testNum = Some ?n, run_measured = map IP ipSet\<rparr>"
  have nonzero: "\<not> feq (MinSpeed g') (Fin 0)"
    using assms(3) by (simp add: speed fgt_zero)
  have run: "TestDownloadSpeed dh g ipSet = Some ?r"
    using TestDownloadSpeed_unfold [OF assms(1,2) cond g'_def loop] nonzero debug by simp
  have all: "mset (sort_Sort DownloadSpeedSet_Less ?all) = mset ?all"
    by (rule mset_sort_Sort_DownloadSpeedSet)
  have size: "length ?all = length ipSet"
    by (simp add: measured_from_def)
  have nonempty: "sort_Sort DownloadSpeedSet_Less ?all \<noteq> []"
    using assms(2) size length_sort_Sort_DownloadSpeedSet [of ?all] by auto
  have below: "\<not> fge (DownloadSpeed cf) (threshold g)"
    if "cf \<in> set (sort_Sort DownloadSpeedSet_Less ?all)" for cf
  proof -
    have "cf \<in> set ?all" using that all by (metis set_mset_mset)
    then obtain k where "k < length ipSet" and "cf = attach (dh k (IP (ipSet ! k))) (ipSet ! k)"
      using measured_from_speeds by blast
    then show ?thesis using assms(4) by (simp add: DownloadSpeed_attach)
  qed
  have empty: "sort_Sort DownloadSpeedSet_Less [] = ([] :: DownloadSpeedSet)"
    by (simp add: sort_Sort_def)
  show ?thesis
    using run all nonempty below empty by (intro exI [of _ ?r]) simp
qed

theorem TestDownloadSpeed_none_meets_threshold_witness:
  "\<not> Disable (initial_globals\<lparr>MinSpeed := Fin 1, Debug := True\<rparr>)
   \<and> fgt (MinSpeed (initial_globals\<lparr>MinSpeed := Fin 1, Debug := True\<rparr>)) (Fin 0)
   \<and> \<not> fge (Fin 500000) (threshold (initial_globals\<lparr>MinSpeed := Fin 1, Debug := True\<rparr>))
   \<and> map_option (\<lambda>r. mset (run_speedSet r))
        (TestDownloadSpeed (steady 500000) (initial_globals\<lparr>MinSpeed := Fin 1, Debug := True\<rparr>)
           [probed ip1 4 4 50, probed ip2 4 4 60])
      = Some {#(probed ip1 4 4 50)\<lparr>DownloadSpeed := Fin 500000\<rparr>,
              (probed ip2 4 4 60)\<lparr>DownloadSpeed := Fin 500000\<rparr>#}"
proof -
  let ?g = "initial_globals\<lparr>MinSpeed := Fin 1, Debug := True\<rparr>"
  let ?s = "[probed ip1 4 4 50, probed ip2 4 4 60]"
  have on: "\<not> Disable ?g" and debug: "Debug ?g"
    by (simp_all add: initial_globals_def defaultDisableDownload_def)
  have some: "?s \<noteq> []" by simp
  have positive: "fgt (MinSpeed ?g) (Fin 0)"
    by (simp add: fgt_def)
  have slow: "\<not> fge (Fin 500000) (threshold ?g)"
    by (simp add: threshold_def fge_def fle_def)
  then have low: "\<forall>k. k < length ?s \<longrightarrow>
                    \<not> fge (fst (steady 500000 k (IP (?s ! k)))) (threshold ?g)"
    by (simp add: steady_def)
  from TestDownloadSpeed_none_meets_threshold
         [where dh = "steady 500000" and g = ?g and ipSet = ?s] on some positive low debug
  obtain r where "TestDownloadSpeed (steady 500000) ?g ?s = Some r"
    and "mset (run_speedSet r) = mset (measured_from (steady 500000) 0 ?s)"
    by blast
  moreover have "measured_from (steady 500000) 0 ?s
                   = [(probed ip1 4 4 50)\<lparr>DownloadSpeed := Fin 500000\<rparr>,
                      (probed ip2 4 4 60)\<lparr>DownloadSpeed := Fin 500000\<rparr>]"
    by (simp add: measured_from_def enumerate_eq_zip upt_rec steady_def attach_def
                  probed_def zeroIPData_def)
  ultimately have "map_option (\<lambda>r. mset (run_speedSet r)) (TestDownloadSpeed (steady 500000) ?g ?s)
      = Some {#(probed ip1 4 4 50)\<lparr>DownloadSpeed := Fin 500000\<rparr>,
              (probed ip2 4 4 60)\<lparr>DownloadSpeed := Fin 500000\<rparr>#}"
    by simp
  then show ?thesis using on positive slow by blast
qed

text \<open>
  A minimum speed of 1 MB/s, debug mode off, and two candidates that download at
  500000 bytes per second: both are measured and the result is empty.
\<close>

theorem TestDownloadSpeed_empty_without_debug_counterexample:
  "\<not> Disable (initial_globals\<lparr>MinSpeed := Fin 1\<rparr>)
   \<and> fgt (MinSpeed (initial_globals\<lparr>MinSpeed := Fin 1\<rparr>)) (Fin 0)
   \<and> \<not> fge (Fin 500000) (threshold (initial_globals\<lparr>MinSpeed := Fin 1\<rparr>))
   \<and> [probed ip1 4 4 50, probed ip2 4 4 60] \<noteq> []
   \<and> map_option run_speedSet
        (TestDownloadSpeed (steady 500000) (initial_globals\<lparr>MinSpeed := Fin 1\<rparr>)
           [probed ip1 4 4 50, probed ip2 4 4 60]) = Some []
   \<and> map_option run_measured
        (TestDownloadSpeed (steady 500000) (initial_globals\<lparr>MinSpeed := Fin 1\<rparr>)
           [probed ip1 4 4 50, probed ip2 4 4 60]) = Some [ip1, ip2]"
  by (simp add: TestDownloadSpeed_def checkDownloadDefault_def initial_globals_def Let_def
        defaultURL_def defaultTimeout_def Second_def Millisecond_def defaultMinSpeed_def
        defaultDisableDownload_def defaultTestNum_def fle_def fgt_def fge_def threshold_def
        download_loop.simps [of _ _ _ 0] download_loop.simps [of _ _ _ "Suc 0"]
        download_loop.simps [of _ _ _ "Suc (Suc 0)"]
        steady_def attach_def probed_def zeroIPData_def sort_Sort_def)

section \<open>The range expander\<close>

lemma IndexByte_absent: "c \<notin> set s \<Longrightarrow> IndexByte s c = - 1"
  by (induction s) auto

lemma IndexByte_first: "c \<notin> set s \<Longrightarrow> IndexByte (s @ c # t) c = int (length s)"
  by (induction s) auto

lemma fixIP_without_mask:
  assumes "CHR ''/'' \<notin> set spec"
  shows "fixIP r spec = (spec @ (if isIPv4 spec then ''/32'' else ''/128''),
                         r\<lparr>cidr_mask := (if isIPv4 spec then ''/32'' else ''/128'')\<rparr>)"
  using assms by (simp add: fixIP_def IndexByte_absent Let_def)

lemma fixIP_with_mask:
  assumes "CHR ''/'' \<notin> set spec"
  shows "fixIP r (spec @ CHR ''/'' # bits) = (spec @ CHR ''/'' # bits, r\<lparr>cidr_mask := CHR ''/'' # bits\<rparr>)"
  using assms by (simp add: fixIP_def IndexByte_first Let_def)

text \<open>
  C8, as the source has it. A specification without a mask suffix (no \<open>/\<close> in it) is
  treated as the one that has \<open>/32\<close> appended when the string contains a \<open>.\<close> and \<open>/128\<close>
  when it contains none: \<open>fixIP\<close> returns that string and leaves the same state, and
  expanding the specification gives what expanding the longer one gives. When the library
  parses it, the expansion appends exactly the one address parsed, whatever the mode and
  the fuel, and makes no draw from the random source. So \<open>1.1.1.1\<close> is read as
  \<open>1.1.1.1/32\<close> and \<open>2606:4700::\<close> as \<open>2606:4700::/128\<close>.
\<close>

theorem specification_without_mask:
  assumes "CHR ''/'' \<notin> set spec"
  shows "fst (fixIP r spec) = spec @ (if CHR ''.'' \<in> set spec then ''/32'' else ''/128'')
         \<and> fixIP r spec = fixIP r (spec @ (if CHR ''.'' \<in> set spec then ''/32'' else ''/128''))
         \<and> expandRange fuel lib TestAll (r, k) spec
             = expandRange fuel lib TestAll (r, k)
                 (spec @ (if CHR ''.'' \<in> set spec then ''/32'' else ''/128''))
         \<and> (ParseCIDR lib (spec @ (if CHR ''.'' \<in> set spec then ''/32'' else ''/128''))
               = Some (first, net) \<longrightarrow>
               expandRange fuel lib TestAll (r, k) spec
                 = Inr (r\<lparr>ips := ips r @ [first],
                          cidr_mask := (if CHR ''.'' \<in> set spec then ''/32'' else ''/128''),
                          firstIP := first, ipNet := Some net\<rparr>, k)
               \<and> (spec \<noteq> [] \<longrightarrow> loadIPRanges fuel lib TestAll k [spec] = Inr [first]))
         \<and> fixIP newIPRanges ''1.1.1.1'' = (''1.1.1.1/32'', newIPRanges\<lparr>cidr_mask := ''/32''\<rparr>)
         \<and> fixIP newIPRanges ''2606:4700::''
             = (''2606:4700::/128'', newIPRanges\<lparr>cidr_mask := ''/128''\<rparr>)"
proof -
  let ?suffix = "if CHR ''.'' \<in> set spec then ''/32'' else ''/128''"
  have kind: "isIPv4 s = (CHR ''.'' \<in> set s)" for s
    by (simp add: isIPv4_def)
  have fixed: "fixIP r' spec = (spec @ ?suffix, r'\<lparr>cidr_mask := ?suffix\<rparr>)" for r'
    using fixIP_without_mask [OF assms, of r'] by (simp add: kind)
  have written: "fixIP r' (spec @ ?suffix) = (spec @ ?suffix, r'\<lparr>cidr_mask := ?suffix\<rparr>)" for r'
    using fixIP_with_mask [OF assms, of r' "''32''"] fixIP_with_mask [OF assms, of r' "''128''"]
    by simp
  have first_part: "fst (fixIP r spec) = spec @ ?suffix"
    by (simp only: fixed fst_conv)
  have same_fix: "fixIP r spec = fixIP r (spec @ ?suffix)"
    by (simp only: fixed written)
  have same_parse: "parseCIDR lib r' spec = parseCIDR lib r' (spec @ ?suffix)" for r'
    by (simp only: parseCIDR_def fixed written)
  have same_kind: "isIPv4 (spec @ ?suffix) = isIPv4 spec"
    by (simp add: kind)
  have same_range: "expandRange fuel lib TestAll (r, k) spec
                      = expandRange fuel lib TestAll (r, k) (spec @ ?suffix)"
    by (simp only: expandRange_def same_parse same_kind)
  have one: "expandRange fuel lib TestAll (r', k) spec
               = Inr (r'\<lparr>ips := ips r' @ [first], cidr_mask := ?suffix,
                         firstIP := first, ipNet := Some net\<rparr>, k)"
    if "ParseCIDR lib (spec @ ?suffix) = Some (first, net)" for r'
    using that
    by (simp add: expandRange_def parseCIDR_def fixed chooseIPv4_def chooseIPv6_def appendIP_def kind)
  have load: "loadIPRanges fuel lib TestAll k [spec] = Inr [first]"
    if "ParseCIDR lib (spec @ ?suffix) = Some (first, net)" and "spec \<noteq> []"
    using that by (simp add: loadIPRanges_def one newIPRanges_def)
  have v4: "fixIP newIPRanges ''1.1.1.1'' = (''1.1.1.1/32'', newIPRanges\<lparr>cidr_mask := ''/32''\<rparr>)"
    by (simp add: fixIP_def isIPv4_def Let_def)
  have v6: "fixIP newIPRanges ''2606:4700::''
              = (''2606:4700::/128'', newIPRanges\<lparr>cidr_mask := ''/128''\<rparr>)"
    by (simp add: fixIP_def isIPv4_def Let_def)
  show ?thesis
    apply (intro conjI impI)
          apply (rule first_part)
         apply (rule same_fix)
        apply (rule same_range)
       apply (erule one)
      apply (erule (1) load)
     apply (rule v4)
    apply (rule v6)
    done
qed

theorem specification_without_mask_witness:
  "CHR ''/'' \<notin> set ''1.1.1.1''
   \<and> fst (fixIP newIPRanges ''1.1.1.1'') = ''1.1.1.1/32''
   \<and> expandRange 0 example_library False (newIPRanges, 0) ''1.1.1.1''
       = expandRange 0 example_library False (newIPRanges, 0) ''1.1.1.1/32''
   \<and> loadIPRanges 0 example_library False 0 [''1.1.1.1''] = Inr [IPv4 1 1 1 1]
   \<and> CHR ''/'' \<notin> set ''2606:4700::''
   \<and> fst (fixIP newIPRanges ''2606:4700::'') = ''2606:4700::/128''
   \<and> expandRange 0 example_library True (newIPRanges, 0) ''2606:4700::''
       = expandRange 0 example_library True (newIPRanges, 0) ''2606:4700::/128''
   \<and> loadIPRanges 0 example_library True 0 [''2606:4700::''] = Inr [ip_2606_4700]"
proof -
  have no_slash: "CHR ''/'' \<notin> set ''1.1.1.1''" and no_slash6: "CHR ''/'' \<notin> set ''2606:4700::''"
    by simp_all
  have suffix: "''1.1.1.1'' @ (if CHR ''.'' \<in> set ''1.1.1.1'' then ''/32'' else ''/128'') = ''1.1.1.1/32''"
    and suffix6: "''2606:4700::'' @ (if CHR ''.'' \<in> set ''2606:4700::'' then ''/32'' else ''/128'')
                    = ''2606:4700::/128''"
    by simp_all
  have parsed: "ParseCIDR example_library ''1.1.1.1/32''
                  = Some (IPv4 1 1 1 1, \<lparr>network = IPv4 1 1 1 1, Mask = [255, 255, 255, 255]\<rparr>)"
    and parsed6: "ParseCIDR example_library ''2606:4700::/128''
                  = Some (ip_2606_4700, \<lparr>network = ip_2606_4700, Mask = replicate 16 255\<rparr>)"
    by (simp_all add: example_library_def)
  note general = specification_without_mask
         [OF no_slash, of newIPRanges 0 example_library False 0 "IPv4 1 1 1 1"
            "\<lparr>network = IPv4 1 1 1 1, Mask = [255, 255, 255, 255]\<rparr>", unfolded suffix]
  note general6 = specification_without_mask
         [OF no_slash6, of newIPRanges 0 example_library True 0 ip_2606_4700
            "\<lparr>network = ip_2606_4700, Mask = replicate 16 255\<rparr>", unfolded suffix6]
  have a: "fst (fixIP newIPRanges ''1.1.1.1'') = ''1.1.1.1/32''"
    using general by blast
  have b: "expandRange 0 example_library False (newIPRanges, 0) ''1.1.1.1''
             = expandRange 0 example_library False (newIPRanges, 0) ''1.1.1.1/32''"
    using general by blast
  have c: "loadIPRanges 0 example_library False 0 [''1.1.1.1''] = Inr [IPv4 1 1 1 1]"
    using general parsed by blast
  have a6: "fst (fixIP newIPRanges ''2606:4700::'') = ''2606:4700::/128''"
    using general6 by blast
  have b6: "expandRange 0 example_library True (newIPRanges, 0) ''2606:4700::''
             = expandRange 0 example_library True (newIPRanges, 0) ''2606:4700::/128''"
    using general6 by blast
  have c6: "loadIPRanges 0 example_library True 0 [''2606:4700::''] = Inr [ip_2606_4700]"
    using general6 parsed6 by blast
  show ?thesis
    using no_slash a b c no_slash6 a6 b6 c6 by blast
qed

text \<open>
  The suffix follows the \<open>.\<close> in the string, not the family of the address. The IPv6
  specification \<open>::ffff:1.2.3.4\<close> has no mask suffix and is written with a dotted tail:
  \<open>fixIP\<close> appends \<open>/32\<close> to it, not \<open>/128\<close>, and the expansion is the one of
  \<open>::ffff:1.2.3.4/32\<close>, one address under a mask of 32 bits of 128. Written out with
  \<open>/128\<close>, the same address is sent to \<open>chooseIPv4\<close> with a 16-byte mask, and
  \<open>getIPRange\<close> runs off the end of its 4-byte mask.
\<close>

theorem dotted_IPv6_specification_counterexample:
  "CHR ''/'' \<notin> set ''::ffff:1.2.3.4'' \<and> CHR '':'' \<in> set ''::ffff:1.2.3.4''
   \<and> fixIP newIPRanges ''::ffff:1.2.3.4''
       = (''::ffff:1.2.3.4/32'', newIPRanges\<lparr>cidr_mask := ''/32''\<rparr>)
   \<and> expandRange 0 example_library False (newIPRanges, 0) ''::ffff:1.2.3.4''
       = expandRange 0 example_library False (newIPRanges, 0) ''::ffff:1.2.3.4/32''
   \<and> expandRange 0 example_library False (newIPRanges, 0) ''::ffff:1.2.3.4''
       = Inr (\<lparr>ips = [IPv4 1 2 3 4], cidr_mask = ''/32'', firstIP = IPv4 1 2 3 4,
                ipNet = Some \<lparr>network = replicate 16 0,
                               Mask = replicate 4 255 @ replicate 12 0\<rparr>\<rparr>, 0)
   \<and> expandRange 0 example_library False (newIPRanges, 0) ''::ffff:1.2.3.4/128'' = Inl Panic"
  by (simp add: fixIP_def isIPv4_def Let_def expandRange_def parseCIDR_def example_library_def
                chooseIPv4_def appendIP_def newIPRanges_def getIPRange_def)

section \<open>The location tag\<close>

text \<open>
  C9. \<open>getHeaderColo\<close> is a function of the header set alone, and it has a value for
  every header set (it raises nothing). The header \<open>server: BunnyCDN-TW1-1121\<close> gives
  \<open>TW\<close>; \<open>x-amz-cf-pop: SIN52-P1\<close> gives \<open>SIN\<close>; \<open>x-served-by: cache-fra-etou8220141-FRA\<close>
  gives \<open>FRA\<close>, the last dash-segment of the whole value; a header set with none of the
  recognised headers, or with a server that is not recognised, gives the empty string.
\<close>

theorem getHeaderColo_examples:
  "getHeaderColo [''server'' \<mapsto> ''BunnyCDN-TW1-1121''] = ''TW''
   \<and> getHeaderColo [''x-amz-cf-pop'' \<mapsto> ''SIN52-P1''] = ''SIN''
   \<and> getHeaderColo [''x-served-by'' \<mapsto> ''cache-fra-etou8220141-FRA''] = ''FRA''
   \<and> getHeaderColo [''server'' \<mapsto> ''nginx''] = []
   \<and> getHeaderColo Map.empty = []
   \<and> (header ''cf-ray'' = None \<and> header ''x-amz-cf-pop'' = None \<and> header ''x-served-by'' = None
        \<and> header ''x-id-fe'' = None \<and> header ''server'' = None
       \<longrightarrow> getHeaderColo header = [])"
  by (simp add: getHeaderColo_def Get_def last_dash_segment_def leading_letters_def
                is_upper_def is_lower_def)

theorem getHeaderColo_examples_witness:
  "[''content-type'' \<mapsto> ''text/html''] ''cf-ray'' = None
   \<and> [''content-type'' \<mapsto> ''text/html''] ''server'' = None
   \<and> getHeaderColo [''content-type'' \<mapsto> ''text/html''] = []"
  using getHeaderColo_examples [of "[''content-type'' \<mapsto> ''text/html'']"]
  by simp

end
